theory Spec2Isabelle
  imports Main
begin

section \<open>The Version value type of go-version\<close>

text \<open>
  The source is \<^verbatim>\<open>vendor/github.com/hashicorp/go-version/version.go\<close>.
  A Go \<^verbatim>\<open>string\<close> is a byte sequence, here a \<^typ>\<open>string\<close> (a list of 8-bit
  characters). A Go \<^verbatim>\<open>[]int\<close> is modelled by the list of its elements; the only
  operations the program applies to segment values are equality, order and decimal
  formatting, so \<^typ>\<open>int\<close> carries them without any wrap-around.
  \<^verbatim>\<open>reflect.DeepEqual\<close> on two such slices is equality of the lists: it tells a nil
  slice from an empty one, but \<^verbatim>\<open>NewVersion\<close> only builds slices of three or more
  elements. An error return is a value of a sum type, \<open>Inl\<close> the error.
\<close>

record Version =
  metadata :: string
  pre :: string
  segments :: "int list"
  si :: int

subsection \<open>Library functions of Go used by the program\<close>

definition isDigit :: "char \<Rightarrow> bool" where
  "isDigit c = ((48::int) \<le> of_char c \<and> of_char c \<le> (57::int))"

definition digitVal :: "char \<Rightarrow> int" where
  "digitVal c = of_char c - 48"

definition digitChar :: "int \<Rightarrow> char" where
  "digitChar d = char_of (48 + d)"

text \<open>\<^verbatim>\<open>strconv.ParseUint(s, 10, _)\<close> without its range check: the value of a
  non-empty string of decimal digits, a syntax error otherwise.\<close>

definition ParseUint :: "string \<Rightarrow> int option" where
  "ParseUint s =
     (if s = [] \<or> \<not> list_all isDigit s then None
      else Some (foldl (\<lambda>acc c. 10 * acc + digitVal c) 0 s))"

text \<open>\<^verbatim>\<open>strconv.ParseInt(s, 10, bitSize)\<close>: an optional sign, then decimal digits;
  \<open>None\<close> stands for a non-nil error (syntax or range).\<close>

definition ParseInt :: "string \<Rightarrow> nat \<Rightarrow> int option" where
  "ParseInt s bitSize =
     (case s of
        [] \<Rightarrow> None
      | c # cs \<Rightarrow>
          (let neg = (c = CHR ''-'');
               body = (if c = CHR ''+'' \<or> c = CHR ''-'' then cs else s)
           in case ParseUint body of
                None \<Rightarrow> None
              | Some un \<Rightarrow>
                  (let cutoff = (2::int) ^ (bitSize - 1)
                   in if \<not> neg \<and> un \<ge> cutoff then None
                      else if neg \<and> un > cutoff then None
                      else Some (if neg then - un else un))))"

text \<open>The decimal digits of a non-negative number.\<close>

function digitsOf :: "int \<Rightarrow> string" where
  "digitsOf n = (if n < 10 then [digitChar n] else digitsOf (n div 10) @ [digitChar (n mod 10)])"
  by pat_completeness auto
termination
  by (relation "measure nat") auto

declare digitsOf.simps [simp del]

text \<open>\<^verbatim>\<open>strconv.Itoa\<close>.\<close>

definition Itoa :: "int \<Rightarrow> string" where
  "Itoa n = (if n < 0 then CHR ''-'' # digitsOf (- n) else digitsOf n)"

text \<open>\<^verbatim>\<open>strings.Split(s, ".")\<close>: the pieces between the dots; the empty string
  gives one empty piece.\<close>

fun Split :: "string \<Rightarrow> string list" where
  "Split [] = [[]]"
| "Split (c # cs) =
     (if c = CHR ''.'' then [] # Split cs
      else (case Split cs of [] \<Rightarrow> [[c]] | t # ts \<Rightarrow> (c # t) # ts))"

text \<open>\<^verbatim>\<open>strings.Join(parts, ".")\<close>.\<close>

fun Join :: "string list \<Rightarrow> string" where
  "Join [] = []"
| "Join [x] = x"
| "Join (x # y # ys) = x @ CHR ''.'' # Join (y # ys)"

text \<open>Go compares strings byte by byte; \<open>strGreater a b\<close> is \<^verbatim>\<open>a > b\<close>.\<close>

fun strGreater :: "string \<Rightarrow> string \<Rightarrow> bool" where
  "strGreater [] _ = False"
| "strGreater (a # as) [] = True"
| "strGreater (a # as) (b # bs) =
     (if (of_char a :: int) > of_char b then True
      else if (of_char a :: int) < of_char b then False
      else strGreater as bs)"

subsection \<open>Accessors and formatting\<close>

definition Metadata :: "Version \<Rightarrow> string" where
  "Metadata v = metadata v"

definition Prerelease :: "Version \<Rightarrow> string" where
  "Prerelease v = pre v"

definition Segments :: "Version \<Rightarrow> int list" where
  "Segments v = segments v"

definition String :: "Version \<Rightarrow> string" where
  "String v =
     Join (map Itoa (segments v))
     @ (if pre v \<noteq> [] then CHR ''-'' # pre v else [])
     @ (if metadata v \<noteq> [] then CHR ''+'' # metadata v else [])"

subsection \<open>Comparison\<close>

fun allZero :: "int list \<Rightarrow> bool" where
  "allZero [] = True"
| "allZero (s # segs) = (if s \<noteq> 0 then False else allZero segs)"

definition comparePart :: "string \<Rightarrow> string \<Rightarrow> int" where
  "comparePart preSelf preOther =
     (if preSelf = preOther then 0
      else if preSelf = [] then
        (case ParseInt preOther 64 of Some _ \<Rightarrow> -1 | None \<Rightarrow> 1)
      else if preOther = [] then
        (case ParseInt preSelf 64 of Some _ \<Rightarrow> 1 | None \<Rightarrow> -1)
      else if strGreater preSelf preOther then 1
      else -1)"

text \<open>The loop of \<^verbatim>\<open>comparePrereleases\<close>, from index \<open>i\<close>.\<close>

function prereleaseLoop :: "string list \<Rightarrow> string list \<Rightarrow> nat \<Rightarrow> int" where
  "prereleaseLoop selfPreReleaseMeta otherPreReleaseMeta i =
     (let selfPreReleaseLen = length selfPreReleaseMeta;
          otherPreReleaseLen = length otherPreReleaseMeta;
          biggestLen = (if selfPreReleaseLen > otherPreReleaseLen then selfPreReleaseLen
                        else otherPreReleaseLen)
      in if i < biggestLen then
           (let partSelfPre = (if i < selfPreReleaseLen then selfPreReleaseMeta ! i else []);
                partOtherPre = (if i < otherPreReleaseLen then otherPreReleaseMeta ! i else []);
                compare = comparePart partSelfPre partOtherPre
            in if compare \<noteq> 0 then compare
               else prereleaseLoop selfPreReleaseMeta otherPreReleaseMeta (i + 1))
         else 0)"
  by pat_completeness auto
termination
  by (relation "measure (\<lambda>(a, b, i). max (length a) (length b) - i)")
     (auto split: if_splits)

declare prereleaseLoop.simps [simp del]

definition comparePrereleases :: "string \<Rightarrow> string \<Rightarrow> int" where
  "comparePrereleases v other =
     (if v = other then 0
      else prereleaseLoop (Split v) (Split other) 0)"

text \<open>The segment loop of \<^verbatim>\<open>Compare\<close>, from index \<open>i\<close>. A \<^verbatim>\<open>break\<close> leaves
  the loop for the final \<^verbatim>\<open>return 0\<close>.\<close>

function segmentLoop :: "int list \<Rightarrow> int list \<Rightarrow> nat \<Rightarrow> int" where
  "segmentLoop segmentsSelf segmentsOther i =
     (let lenSelf = int (length segmentsSelf);
          lenOther = int (length segmentsOther);
          hS = (if lenSelf < lenOther then lenOther else lenSelf)
      in if int i < hS then
           (if int i > lenSelf - 1 then
              (if \<not> allZero (drop i segmentsOther) then -1 else 0)
            else if int i > lenOther - 1 then
              (if \<not> allZero (drop i segmentsSelf) then 1 else 0)
            else
              (let lhs = segmentsSelf ! i; rhs = segmentsOther ! i
               in if lhs = rhs then segmentLoop segmentsSelf segmentsOther (i + 1)
                  else if lhs < rhs then -1
                  else 1))
         else 0)"
  by pat_completeness auto
termination
  by (relation "measure (\<lambda>(a, b, i). max (length a) (length b) - i)")
     (auto split: if_splits)

declare segmentLoop.simps [simp del]

definition Compare :: "Version \<Rightarrow> Version \<Rightarrow> int" where
  "Compare v other =
     (if String v = String other then 0
      else
        (let segmentsSelf = Segments v; segmentsOther = Segments other
         in if segmentsSelf = segmentsOther then
              (let preSelf = Prerelease v; preOther = Prerelease other
               in if preSelf = [] \<and> preOther = [] then 0
                  else if preSelf = [] then 1
                  else if preOther = [] then -1
                  else comparePrereleases preSelf preOther)
            else segmentLoop segmentsSelf segmentsOther 0))"

definition Equal :: "Version \<Rightarrow> Version \<Rightarrow> bool" where
  "Equal v o' = (Compare v o' = 0)"

definition GreaterThan :: "Version \<Rightarrow> Version \<Rightarrow> bool" where
  "GreaterThan v o' = (Compare v o' > 0)"

definition LessThan :: "Version \<Rightarrow> Version \<Rightarrow> bool" where
  "LessThan v o' = (Compare v o' < 0)"

subsection \<open>Regular expressions\<close>

text \<open>
  Go's \<^verbatim>\<open>regexp\<close> returns the leftmost match and, among those, the one a
  backtracking search finds first. The syntax tree below covers the operators that occur
  in \<^verbatim>\<open>VersionRegexpRaw\<close>; \<open>rmatch r s c\<close> lists, in the order a backtracking
  search tries them, every way \<open>r\<close> can match a prefix of \<open>s\<close>: the input left
  over and the capture groups (group number to captured text, empty when the group took
  no part, as \<^verbatim>\<open>FindStringSubmatch\<close> reports it). A greedy operator lists the
  longer alternative first, a lazy one the shorter. A repetition enters its body again
  only where the body has consumed input; every repeated body of
  \<^verbatim>\<open>VersionRegexpRaw\<close> consumes at least one character.
\<close>

datatype regex =
    Lit char
  | Ranges "(char \<times> char) list"
  | Cat regex regex
  | Quest regex
  | QuestLazy regex
  | Star regex
  | StarLazy regex
  | Plus regex
  | Group nat regex
  | Eol

fun inRanges :: "(char \<times> char) list \<Rightarrow> char \<Rightarrow> bool" where
  "inRanges [] x = False"
| "inRanges ((lo, hi) # rs) x =
     (((of_char lo :: int) \<le> of_char x \<and> (of_char x :: int) \<le> of_char hi) \<or> inRanges rs x)"

function rmatch :: "regex \<Rightarrow> string \<Rightarrow> (nat \<Rightarrow> string) \<Rightarrow> (string \<times> (nat \<Rightarrow> string)) list" where
  "rmatch (Lit a) s c = (case s of [] \<Rightarrow> [] | x # xs \<Rightarrow> if x = a then [(xs, c)] else [])"
| "rmatch (Ranges rs) s c =
     (case s of [] \<Rightarrow> [] | x # xs \<Rightarrow> if inRanges rs x then [(xs, c)] else [])"
| "rmatch (Cat r1 r2) s c = concat (map (\<lambda>(s', c'). rmatch r2 s' c') (rmatch r1 s c))"
| "rmatch (Quest r) s c = rmatch r s c @ [(s, c)]"
| "rmatch (QuestLazy r) s c = (s, c) # rmatch r s c"
| "rmatch (Star r) s c =
     concat (map (\<lambda>(s', c'). if length s' < length s then rmatch (Star r) s' c' else [])
                 (rmatch r s c))
     @ [(s, c)]"
| "rmatch (StarLazy r) s c =
     (s, c) #
     concat (map (\<lambda>(s', c'). if length s' < length s then rmatch (StarLazy r) s' c' else [])
                 (rmatch r s c))"
| "rmatch (Plus r) s c =
     concat (map (\<lambda>(s', c').
                    (if length s' < length s then rmatch (Plus r) s' c' else []) @ [(s', c')])
                 (rmatch r s c))"
| "rmatch (Group n r) s c =
     map (\<lambda>(s', c'). (s', c'(n := take (length s - length s') s))) (rmatch r s c)"
| "rmatch Eol s c = (if s = [] then [(s, c)] else [])"
  by pat_completeness auto
termination
  by (relation "inv_image (less_than <*lex*> less_than) (\<lambda>(r, s, c). (size r, length s))")
     auto

declare rmatch.simps(6-8) [simp del]

text \<open>The capture groups of an expression.\<close>

fun groups :: "regex \<Rightarrow> nat set" where
  "groups (Lit a) = {}"
| "groups (Ranges rs) = {}"
| "groups (Cat r1 r2) = groups r1 \<union> groups r2"
| "groups (Quest r) = groups r"
| "groups (QuestLazy r) = groups r"
| "groups (Star r) = groups r"
| "groups (StarLazy r) = groups r"
| "groups (Plus r) = groups r"
| "groups (Group n r) = insert n (groups r)"
| "groups Eol = {}"

text \<open>\<^verbatim>\<open>FindStringSubmatch\<close> for an expression anchored by \<^verbatim>\<open>^\<close>: the only
  position a match can start at is the beginning of the input.\<close>

definition FindStringSubmatch :: "regex \<Rightarrow> string \<Rightarrow> (nat \<Rightarrow> string) option" where
  "FindStringSubmatch re s =
     (case rmatch re s (\<lambda>_. []) of
        [] \<Rightarrow> None
      | (s', c) # _ \<Rightarrow> Some (c(0 := take (length s - length s') s)))"

subsection \<open>Parsing\<close>

text \<open>The character classes \<^verbatim>\<open>[0-9]\<close> and \<^verbatim>\<open>[0-9A-Za-z\-]\<close>.\<close>

definition digitRanges :: "(char \<times> char) list" where
  "digitRanges = [(CHR ''0'', CHR ''9'')]"

definition alnumDashRanges :: "(char \<times> char) list" where
  "alnumDashRanges = [(CHR ''0'', CHR ''9''), (CHR ''A'', CHR ''Z''), (CHR ''a'', CHR ''z''),
                      (CHR ''-'', CHR ''-'')]"

definition digit :: regex where
  "digit = Ranges digitRanges"

definition alnumDash :: regex where
  "alnumDash = Ranges alnumDashRanges"

text \<open>The three lines of \<^verbatim>\<open>VersionRegexpRaw\<close>, one definition each; the
  \<^verbatim>\<open>?\<close> that the source appends on a line of its own makes the metadata group
  lazy.\<close>

definition segmentsLine :: regex where
  "segmentsLine =
     Cat (Quest (Lit CHR ''v''))
         (Group 1 (Cat (Plus digit) (StarLazy (Group 2 (Cat (Lit CHR ''.'') (Plus digit))))))"

definition prereleaseLine :: regex where
  "prereleaseLine =
     Quest (Group 3 (Cat (Quest (Lit CHR ''-''))
                         (Group 4 (Cat (Plus alnumDash)
                                       (Star (Group 5 (Cat (Lit CHR ''.'') (Plus alnumDash))))))))"

definition metadataLine :: regex where
  "metadataLine =
     QuestLazy (Group 6 (Cat (Lit CHR ''+'')
                             (Group 7 (Cat (Plus alnumDash)
                                           (Star (Group 8 (Cat (Lit CHR ''.'') (Plus alnumDash))))))))"

definition VersionRegexpRaw :: regex where
  "VersionRegexpRaw = Cat segmentsLine (Cat prereleaseLine metadataLine)"

definition versionRegexp :: regex where
  "versionRegexp = Cat VersionRegexpRaw Eol"

datatype error = MalformedVersion string | ErrorParsingVersion string

text \<open>The first loop of \<^verbatim>\<open>NewVersion\<close>, over the pieces still to convert.\<close>

fun convertLoop :: "string list \<Rightarrow> int list \<Rightarrow> int \<Rightarrow> error + (int list \<times> int)" where
  "convertLoop [] segs si' = Inr (segs, si')"
| "convertLoop (str # rest) segs si' =
     (case ParseInt str 32 of
        None \<Rightarrow> Inl (ErrorParsingVersion str)
      | Some val \<Rightarrow> convertLoop rest (segs @ [val]) (si' + 1))"

text \<open>The padding loop of \<^verbatim>\<open>NewVersion\<close>.\<close>

function padLoop :: "int list \<Rightarrow> nat \<Rightarrow> int list" where
  "padLoop segs i = (if i < 3 then padLoop (segs @ [0]) (i + 1) else segs)"
  by pat_completeness auto
termination
  by (relation "measure (\<lambda>(segs, i). 3 - i)") auto

declare padLoop.simps [simp del]

definition NewVersion :: "string \<Rightarrow> error + Version" where
  "NewVersion v =
     (case FindStringSubmatch versionRegexp v of
        None \<Rightarrow> Inl (MalformedVersion v)
      | Some matches \<Rightarrow>
          (let segmentsStr = Split (matches 1)
           in case convertLoop segmentsStr [] 0 of
                Inl e \<Rightarrow> Inl e
              | Inr (segs, si') \<Rightarrow>
                  Inr \<lparr>metadata = matches 7, pre = matches 4,
                       segments = padLoop segs (length segs), si = si'\<rparr>))"

subsection \<open>Well-formed tokens\<close>

text \<open>A token over a character class is a non-empty run of its characters; a token list
  is a dot-separated sequence of tokens.\<close>

definition isToken :: "(char \<times> char) list \<Rightarrow> string \<Rightarrow> bool" where
  "isToken rs t = (t \<noteq> [] \<and> list_all (inRanges rs) t)"

definition isTokenList :: "(char \<times> char) list \<Rightarrow> string \<Rightarrow> bool" where
  "isTokenList rs w = list_all (isToken rs) (Split w)"

subsection \<open>Tokens of a prerelease by position\<close>

text \<open>\<open>tokenAt p i\<close> is what the loop of \<^verbatim>\<open>comparePrereleases\<close> reads at index
  \<open>i\<close>: the token there, or the empty string when the token list has run out.
  \<open>missingTokenClash m n w\<close> holds when \<open>m\<close> is such a missing token, \<open>n\<close>
  parses as an integer and \<open>w\<close> does not, and \<open>w\<close> sorts after \<open>n\<close> as a string:
  then \<^verbatim>\<open>comparePart\<close> puts \<open>m\<close> below \<open>n\<close>, \<open>n\<close> below \<open>w\<close> and \<open>w\<close>
  below \<open>m\<close>. \<open>tokensClash\<close> says so of three tokens in any order.\<close>

definition tokenAt :: "string \<Rightarrow> nat \<Rightarrow> string" where
  "tokenAt p i = (if i < length (Split p) then Split p ! i else [])"

definition missingTokenClash :: "string \<Rightarrow> string \<Rightarrow> string \<Rightarrow> bool" where
  "missingTokenClash m n w =
     (m = [] \<and> ParseInt n 64 \<noteq> None \<and> ParseInt w 64 = None \<and> strGreater w n)"

definition tokensClash :: "string \<Rightarrow> string \<Rightarrow> string \<Rightarrow> bool" where
  "tokensClash x y z =
     (missingTokenClash x y z \<or> missingTokenClash x z y \<or> missingTokenClash y x z
      \<or> missingTokenClash y z x \<or> missingTokenClash z x y \<or> missingTokenClash z y x)"

section \<open>Properties\<close>

subsection \<open>Release and prerelease, metadata, the stored segment count\<close>

lemma String_release_neq_prerelease:
  "segments a = segments b \<Longrightarrow> pre a = [] \<Longrightarrow> pre b \<noteq> [] \<Longrightarrow> String a \<noteq> String b"
  by (simp add: String_def)

lemma comparePrereleases_same: "comparePrereleases p p = 0"
  by (simp add: comparePrereleases_def)

text \<open>
  Claim C6. When two Versions have equal segment sequences, the one with an empty
  prerelease compares greater than the one with a non-empty prerelease, and two empty
  prereleases give 0; \<^verbatim>\<open>1.0.0\<close> is greater than \<^verbatim>\<open>1.0.0-beta\<close>.
\<close>

theorem Compare_release_above_prerelease:
  "(segments a = segments b \<longrightarrow>
      (pre a = [] \<and> pre b \<noteq> [] \<longrightarrow>
         Compare a b = 1 \<and> GreaterThan a b \<and> Compare b a = -1 \<and> LessThan b a)
    \<and> (pre a = [] \<and> pre b = [] \<longrightarrow> Compare a b = 0))
   \<and> (case (NewVersion ''1.0.0'', NewVersion ''1.0.0-beta'') of
         (Inr x, Inr y) \<Rightarrow> GreaterThan x y | _ \<Rightarrow> False)"
proof -
  have ex: "case (NewVersion ''1.0.0'', NewVersion ''1.0.0-beta'') of
         (Inr x, Inr y) \<Rightarrow> GreaterThan x y | _ \<Rightarrow> False"
    by code_simp
  have gen: "Compare a b = 1 \<and> GreaterThan a b \<and> Compare b a = -1 \<and> LessThan b a"
    if "segments a = segments b" "pre a = []" "pre b \<noteq> []"
    using that String_release_neq_prerelease [of a b]
    by (auto simp add: Compare_def GreaterThan_def LessThan_def Segments_def Prerelease_def
        Let_def)
  have zero: "Compare a b = 0" if "segments a = segments b" "pre a = []" "pre b = []"
    using that by (simp add: Compare_def Segments_def Prerelease_def Let_def)
  from ex gen zero show ?thesis by blast
qed

theorem Compare_release_above_prerelease_witness:
  "Compare \<lparr>metadata = ''m'', pre = [], segments = [1, 0, 0], si = 3\<rparr>
           \<lparr>metadata = [], pre = ''beta'', segments = [1, 0, 0], si = 1\<rparr> = 1
   \<and> Compare \<lparr>metadata = ''m'', pre = [], segments = [1, 0, 0], si = 3\<rparr>
             \<lparr>metadata = [], pre = [], segments = [1, 0, 0], si = 1\<rparr> = 0"
  using Compare_release_above_prerelease
          [of "\<lparr>metadata = ''m'', pre = [], segments = [1, 0, 0], si = 3\<rparr>"
              "\<lparr>metadata = [], pre = ''beta'', segments = [1, 0, 0], si = 1\<rparr>"]
        Compare_release_above_prerelease
          [of "\<lparr>metadata = ''m'', pre = [], segments = [1, 0, 0], si = 3\<rparr>"
              "\<lparr>metadata = [], pre = [], segments = [1, 0, 0], si = 1\<rparr>"]
  by simp

text \<open>
  Claim C7. Build metadata does not affect the result of \<open>Compare\<close>: two Versions that
  agree on segments and prerelease compare as 0 whatever their metadata;
  \<^verbatim>\<open>1.0.0+a\<close> equals \<^verbatim>\<open>1.0.0+b\<close>.
\<close>

theorem Compare_ignores_metadata:
  "(segments a = segments b \<and> pre a = pre b \<longrightarrow> Compare a b = 0 \<and> Equal a b)
   \<and> (case (NewVersion ''1.0.0+a'', NewVersion ''1.0.0+b'') of
         (Inr x, Inr y) \<Rightarrow> Equal x y \<and> metadata x \<noteq> metadata y | _ \<Rightarrow> False)"
proof -
  have ex: "case (NewVersion ''1.0.0+a'', NewVersion ''1.0.0+b'') of
         (Inr x, Inr y) \<Rightarrow> Equal x y \<and> metadata x \<noteq> metadata y | _ \<Rightarrow> False"
    by code_simp
  have gen: "Compare a b = 0 \<and> Equal a b" if "segments a = segments b" "pre a = pre b"
    using that
    by (simp add: Compare_def Equal_def Segments_def Prerelease_def Let_def
        comparePrereleases_same)
  from ex gen show ?thesis by blast
qed

theorem Compare_ignores_metadata_witness:
  "Compare \<lparr>metadata = ''a'', pre = ''rc.1'', segments = [1, 0, 0], si = 3\<rparr>
           \<lparr>metadata = ''b'', pre = ''rc.1'', segments = [1, 0, 0], si = 3\<rparr> = 0"
  using Compare_ignores_metadata
          [of "\<lparr>metadata = ''a'', pre = ''rc.1'', segments = [1, 0, 0], si = 3\<rparr>"
              "\<lparr>metadata = ''b'', pre = ''rc.1'', segments = [1, 0, 0], si = 3\<rparr>"]
  by simp

text \<open>
  Claim C10. The stored count of original segments \<open>si\<close> has no effect on any public
  operation: two Versions that agree on segments, prerelease and metadata give equal
  results for Compare (against any third Version, on either side), Equal, GreaterThan,
  LessThan, String, Segments, Prerelease and Metadata. \<^verbatim>\<open>1.0\<close> and \<^verbatim>\<open>1.0.0\<close>
  parse to Versions that differ in \<open>si\<close> only.
\<close>

theorem si_unobservable:
  "(segments a = segments b \<and> pre a = pre b \<and> metadata a = metadata b \<longrightarrow>
      Compare a c = Compare b c \<and> Compare c a = Compare c b
    \<and> Equal a c = Equal b c \<and> Equal c a = Equal c b
    \<and> GreaterThan a c = GreaterThan b c \<and> GreaterThan c a = GreaterThan c b
    \<and> LessThan a c = LessThan b c \<and> LessThan c a = LessThan c b
    \<and> String a = String b \<and> Segments a = Segments b
    \<and> Prerelease a = Prerelease b \<and> Metadata a = Metadata b)
   \<and> (case (NewVersion ''1.0'', NewVersion ''1.0.0'') of
         (Inr x, Inr y) \<Rightarrow>
            si x = 2 \<and> si y = 3 \<and> segments x = segments y \<and> pre x = pre y
            \<and> metadata x = metadata y
       | _ \<Rightarrow> False)"
proof -
  have ex: "case (NewVersion ''1.0'', NewVersion ''1.0.0'') of
         (Inr x, Inr y) \<Rightarrow>
            si x = 2 \<and> si y = 3 \<and> segments x = segments y \<and> pre x = pre y
            \<and> metadata x = metadata y
       | _ \<Rightarrow> False"
    by code_simp
  have gen: "Compare a c = Compare b c \<and> Compare c a = Compare c b
    \<and> Equal a c = Equal b c \<and> Equal c a = Equal c b
    \<and> GreaterThan a c = GreaterThan b c \<and> GreaterThan c a = GreaterThan c b
    \<and> LessThan a c = LessThan b c \<and> LessThan c a = LessThan c b
    \<and> String a = String b \<and> Segments a = Segments b
    \<and> Prerelease a = Prerelease b \<and> Metadata a = Metadata b"
    if "segments a = segments b" "pre a = pre b" "metadata a = metadata b"
  proof -
    have str: "String a = String b"
      using that by (simp add: String_def)
    have l: "Compare a c = Compare b c"
      using that str by (simp add: Compare_def Segments_def Prerelease_def Let_def)
    have r: "Compare c a = Compare c b"
      using that str by (simp add: Compare_def Segments_def Prerelease_def Let_def)
    show ?thesis
      using that str l r
      by (simp add: Equal_def GreaterThan_def LessThan_def Segments_def Prerelease_def
          Metadata_def)
  qed
  from ex gen show ?thesis by blast
qed

theorem si_unobservable_witness:
  "Compare \<lparr>metadata = [], pre = ''rc'', segments = [1, 0, 0], si = 2\<rparr>
           \<lparr>metadata = [], pre = [], segments = [1, 0, 0, 0], si = 4\<rparr>
   = Compare \<lparr>metadata = [], pre = ''rc'', segments = [1, 0, 0], si = 3\<rparr>
             \<lparr>metadata = [], pre = [], segments = [1, 0, 0, 0], si = 4\<rparr>
   \<and> String \<lparr>metadata = [], pre = ''rc'', segments = [1, 0, 0], si = 2\<rparr>
     = String \<lparr>metadata = [], pre = ''rc'', segments = [1, 0, 0], si = 3\<rparr>"
  using si_unobservable
          [of "\<lparr>metadata = [], pre = ''rc'', segments = [1, 0, 0], si = 2\<rparr>"
              "\<lparr>metadata = [], pre = ''rc'', segments = [1, 0, 0], si = 3\<rparr>"
              "\<lparr>metadata = [], pre = [], segments = [1, 0, 0, 0], si = 4\<rparr>"]
  by simp

subsection \<open>The order of strings and the two comparison loops\<close>

lemma strGreater_irrefl: "\<not> strGreater a a"
  by (induction a) auto

lemma strGreater_asym: "strGreater a b \<Longrightarrow> \<not> strGreater b a"
  by (induction a b rule: strGreater.induct) (auto split: if_splits)

lemma strGreater_total: "a \<noteq> b \<Longrightarrow> strGreater a b \<or> strGreater b a"
proof (induction a b rule: strGreater.induct)
  case (1 uu)
  then show ?case by (cases uu) auto
next
  case (2 a as)
  then show ?case by simp
next
  case (3 a as b bs)
  then show ?case by (auto simp add: not_less order.order_iff_strict)
qed

lemma strGreater_lexord:
  "strGreater a b \<longleftrightarrow> (b, a) \<in> lexord {(x, y). (of_char x :: int) < of_char y}"
proof (induction a b rule: strGreater.induct)
  case (1 uu)
  then show ?case by simp
next
  case (2 a as)
  then show ?case by simp
next
  case (3 a as b bs)
  then show ?case by (auto simp add: not_less order.order_iff_strict)
qed

lemma comparePart_antisym: "comparePart a b = - comparePart b a"
  using strGreater_asym [of a b] strGreater_total [of a b]
  by (auto simp add: comparePart_def split: option.splits)

lemma comparePart_range: "comparePart a b \<in> {-1, 0, 1}"
  by (auto simp add: comparePart_def split: option.splits)

lemma prereleaseLoop_step:
  "prereleaseLoop xs ys i =
     (if i < max (length xs) (length ys) then
        (if comparePart (if i < length xs then xs ! i else []) (if i < length ys then ys ! i else []) \<noteq> 0
         then comparePart (if i < length xs then xs ! i else []) (if i < length ys then ys ! i else [])
         else prereleaseLoop xs ys (Suc i))
      else 0)"
  by (subst prereleaseLoop.simps) (simp add: Let_def max_def)

lemma prereleaseLoop_antisym: "prereleaseLoop xs ys i = - prereleaseLoop ys xs i"
proof (induction "max (length xs) (length ys) - i" arbitrary: i)
  case 0
  then have "\<not> i < max (length xs) (length ys)" "\<not> i < max (length ys) (length xs)"
    by auto
  then show ?case
    by (simp only: prereleaseLoop_step [of xs ys i] prereleaseLoop_step [of ys xs i] if_False)
next
  case (Suc n)
  then have ih: "prereleaseLoop xs ys (Suc i) = - prereleaseLoop ys xs (Suc i)"
    by simp
  define x where "x = (if i < length xs then xs ! i else [])"
  define y where "y = (if i < length ys then ys ! i else [])"
  have c: "comparePart x y = - comparePart y x"
    by (rule comparePart_antisym)
  have lt: "i < max (length xs) (length ys)" "i < max (length ys) (length xs)"
    using Suc.hyps(2) by auto
  have l: "prereleaseLoop xs ys i =
             (if comparePart x y \<noteq> 0 then comparePart x y else prereleaseLoop xs ys (Suc i))"
    using lt unfolding x_def y_def by (subst prereleaseLoop_step) (simp only: if_True)
  have r: "prereleaseLoop ys xs i =
             (if comparePart y x \<noteq> 0 then comparePart y x else prereleaseLoop ys xs (Suc i))"
    using lt unfolding x_def y_def by (subst prereleaseLoop_step) (simp only: if_True)
  show ?case
    unfolding l r using c ih by simp
qed

lemma prereleaseLoop_range: "prereleaseLoop xs ys i \<in> {-1, 0, 1}"
proof (induction "max (length xs) (length ys) - i" arbitrary: i)
  case 0
  then have "\<not> i < max (length xs) (length ys)"
    by auto
  then show ?case
    by (simp only: prereleaseLoop_step [of xs ys i] if_False) simp
next
  case (Suc n)
  then have ih: "prereleaseLoop xs ys (Suc i) \<in> {-1, 0, 1}"
    by simp
  define x where "x = (if i < length xs then xs ! i else [])"
  define y where "y = (if i < length ys then ys ! i else [])"
  have c: "comparePart x y \<in> {-1, 0, 1}"
    by (rule comparePart_range)
  have lt: "i < max (length xs) (length ys)"
    using Suc.hyps(2) by auto
  have l: "prereleaseLoop xs ys i =
             (if comparePart x y \<noteq> 0 then comparePart x y else prereleaseLoop xs ys (Suc i))"
    using lt unfolding x_def y_def by (subst prereleaseLoop_step) (simp only: if_True)
  show ?case
    unfolding l using c ih by auto
qed

lemma comparePrereleases_antisym: "comparePrereleases a b = - comparePrereleases b a"
  using prereleaseLoop_antisym [of "Split a" "Split b" 0]
  by (auto simp add: comparePrereleases_def)

lemma comparePrereleases_range: "comparePrereleases a b \<in> {-1, 0, 1}"
  using prereleaseLoop_range [of "Split a" "Split b" 0]
  by (auto simp add: comparePrereleases_def)

lemma segmentLoop_step:
  "segmentLoop xs ys i =
     (if i < max (length xs) (length ys) then
        (if length xs \<le> i then (if \<not> allZero (drop i ys) then -1 else 0)
         else if length ys \<le> i then (if \<not> allZero (drop i xs) then 1 else 0)
         else if xs ! i = ys ! i then segmentLoop xs ys (Suc i)
         else if xs ! i < ys ! i then -1 else 1)
      else 0)"
  by (subst segmentLoop.simps) (auto simp add: Let_def max_def)

lemma segmentLoop_antisym: "segmentLoop xs ys i = - segmentLoop ys xs i"
proof (induction "max (length xs) (length ys) - i" arbitrary: i)
  case 0
  then have "\<not> i < max (length xs) (length ys)" "\<not> i < max (length ys) (length xs)"
    by auto
  then show ?case
    by (simp only: segmentLoop_step [of xs ys i] segmentLoop_step [of ys xs i] if_False)
next
  case (Suc n)
  then have ih: "segmentLoop xs ys (Suc i) = - segmentLoop ys xs (Suc i)"
    by simp
  then show ?case
    by (auto simp add: segmentLoop_step [of xs ys i] segmentLoop_step [of ys xs i] max.commute)
qed

lemma segmentLoop_range: "segmentLoop xs ys i \<in> {-1, 0, 1}"
proof (induction "max (length xs) (length ys) - i" arbitrary: i)
  case 0
  then have "\<not> i < max (length xs) (length ys)"
    by auto
  then show ?case
    by (simp only: segmentLoop_step [of xs ys i] if_False) simp
next
  case (Suc n)
  then have ih: "segmentLoop xs ys (Suc i) \<in> {-1, 0, 1}"
    by simp
  then show ?case
    by (auto simp add: segmentLoop_step [of xs ys i])
qed

lemma Compare_antisym: "Compare a b = - Compare b a"
proof (cases "String a = String b")
  case True
  then show ?thesis by (simp add: Compare_def)
next
  case ne: False
  show ?thesis
  proof (cases "segments a = segments b")
    case True
    with ne show ?thesis
      using comparePrereleases_antisym [of "pre a" "pre b"]
      by (auto simp add: Compare_def Segments_def Prerelease_def Let_def)
  next
    case False
    with ne show ?thesis
      using segmentLoop_antisym [of "segments a" "segments b" 0]
      by (auto simp add: Compare_def Segments_def Prerelease_def Let_def)
  qed
qed

lemma Compare_range: "Compare a b \<in> {-1, 0, 1}"
  using comparePrereleases_range [of "pre a" "pre b"] segmentLoop_range [of "segments a" "segments b" 0]
  by (auto simp add: Compare_def Segments_def Prerelease_def Let_def)

lemma prereleaseLoop_common_prefix:
  "i \<le> length p \<Longrightarrow>
   prereleaseLoop (p @ xs) (p @ ys) i = prereleaseLoop (p @ xs) (p @ ys) (length p)"
proof (induction "length p - i" arbitrary: i)
  case 0
  then show ?case by simp
next
  case (Suc n)
  then have lt: "i < length p" by simp
  then have ih: "prereleaseLoop (p @ xs) (p @ ys) (Suc i)
                 = prereleaseLoop (p @ xs) (p @ ys) (length p)"
    using Suc by simp
  have "prereleaseLoop (p @ xs) (p @ ys) i = prereleaseLoop (p @ xs) (p @ ys) (Suc i)"
    using lt by (subst prereleaseLoop_step) (auto simp add: nth_append comparePart_def)
  with ih show ?case by simp
qed

lemma prereleaseLoop_first_difference:
  assumes "comparePart x y \<noteq> 0"
  shows "prereleaseLoop (p @ x # xs) (p @ y # ys) 0 = comparePart x y"
proof -
  have "prereleaseLoop (p @ x # xs) (p @ y # ys) 0
        = prereleaseLoop (p @ x # xs) (p @ y # ys) (length p)"
    by (rule prereleaseLoop_common_prefix) simp
  also have "\<dots> = comparePart x y"
    using assms by (subst prereleaseLoop_step) (auto simp add: nth_append)
  finally show ?thesis .
qed

lemma prereleaseLoop_missing_other:
  assumes "comparePart x [] \<noteq> 0"
  shows "prereleaseLoop (p @ x # xs) p 0 = comparePart x []"
proof -
  have "prereleaseLoop (p @ x # xs) (p @ []) 0
        = prereleaseLoop (p @ x # xs) (p @ []) (length p)"
    by (rule prereleaseLoop_common_prefix) simp
  also have "\<dots> = comparePart x []"
    using assms by (subst prereleaseLoop_step) (auto simp add: nth_append)
  finally show ?thesis by simp
qed

lemma prereleaseLoop_missing_self:
  assumes "comparePart [] y \<noteq> 0"
  shows "prereleaseLoop p (p @ y # ys) 0 = comparePart [] y"
proof -
  have "prereleaseLoop (p @ []) (p @ y # ys) 0
        = prereleaseLoop (p @ []) (p @ y # ys) (length p)"
    by (rule prereleaseLoop_common_prefix) simp
  also have "\<dots> = comparePart [] y"
    using assms by (subst prereleaseLoop_step) (auto simp add: nth_append)
  finally show ?thesis by simp
qed

subsection \<open>Prerelease tokens\<close>

text \<open>
  Claim C5. Two corresponding prerelease tokens that are both non-empty and unequal are
  compared as plain strings in lexicographic byte order, not by numeric value: the result
  is -1 if the token of self sorts first and 1 otherwise, for \<open>comparePart\<close> and for
  \<open>comparePrereleases\<close> at the first position where the token lists differ. Comparing
  \<^verbatim>\<open>1.0.0-9\<close> with \<^verbatim>\<open>1.0.0-10\<close> gives 1.
\<close>

theorem prerelease_tokens_compared_as_strings:
  "(a \<noteq> [] \<and> b \<noteq> [] \<and> a \<noteq> b \<longrightarrow>
      comparePart a b
        = (if (a, b) \<in> lexord {(x, y). (of_char x :: int) < of_char y} then -1 else 1))
   \<and> (Split v = p @ a # as \<and> Split other = p @ b # bs \<and> a \<noteq> [] \<and> b \<noteq> [] \<and> a \<noteq> b \<longrightarrow>
      comparePrereleases v other
        = (if (a, b) \<in> lexord {(x, y). (of_char x :: int) < of_char y} then -1 else 1))
   \<and> (case (NewVersion ''1.0.0-9'', NewVersion ''1.0.0-10'') of
         (Inr x, Inr y) \<Rightarrow> Compare x y = 1 | _ \<Rightarrow> False)"
proof -
  have ex: "case (NewVersion ''1.0.0-9'', NewVersion ''1.0.0-10'') of
         (Inr x, Inr y) \<Rightarrow> Compare x y = 1 | _ \<Rightarrow> False"
    by code_simp
  have part: "comparePart a b
        = (if (a, b) \<in> lexord {(x, y). (of_char x :: int) < of_char y} then -1 else 1)"
    if "a \<noteq> []" "b \<noteq> []" "a \<noteq> b" for a b
    using that strGreater_asym [of a b] strGreater_total [of a b]
      strGreater_lexord [of b a]
    by (auto simp add: comparePart_def)
  have loop: "comparePrereleases v other
        = (if (a, b) \<in> lexord {(x, y). (of_char x :: int) < of_char y} then -1 else 1)"
    if h: "Split v = p @ a # as" "Split other = p @ b # bs" "a \<noteq> []" "b \<noteq> []" "a \<noteq> b"
  proof -
    have ne: "v \<noteq> other" using h by auto
    have nz: "comparePart a b \<noteq> 0" using part [OF h(3-5)] by simp
    show ?thesis
      using ne h prereleaseLoop_first_difference [OF nz, of p as bs] part [OF h(3-5)]
      by (simp add: comparePrereleases_def)
  qed
  from ex part loop show ?thesis by blast
qed

theorem prerelease_tokens_compared_as_strings_witness:
  "comparePart ''9'' ''10'' = 1 \<and> comparePrereleases ''rc.9'' ''rc.10'' = 1"
  using prerelease_tokens_compared_as_strings
          [where a = "''9''" and b = "''10''" and v = "''rc.9''" and other = "''rc.10''"
             and p = "[''rc'']" and as = "[]" and bs = "[]"]
  by simp

text \<open>
  Claim C4. When one side has no token at a position (the empty string stands for it) and
  the other side's token is non-empty: if that token parses as an integer the side with
  the empty token compares less, otherwise it compares greater. So
  \<^verbatim>\<open>1.0.0-alpha\<close> is less than \<^verbatim>\<open>1.0.0-alpha.1\<close> and greater than
  \<^verbatim>\<open>1.0.0-alpha.beta\<close>.
\<close>

theorem empty_token_against_nonempty:
  "(t \<noteq> [] \<longrightarrow>
      (ParseInt t 64 \<noteq> None \<longrightarrow> comparePart [] t = -1 \<and> comparePart t [] = 1)
    \<and> (ParseInt t 64 = None \<longrightarrow> comparePart [] t = 1 \<and> comparePart t [] = -1))
   \<and> (t \<noteq> [] \<and> Split v = p \<and> Split other = p @ t # ts \<longrightarrow>
      (ParseInt t 64 \<noteq> None \<longrightarrow> comparePrereleases v other = -1 \<and> comparePrereleases other v = 1)
    \<and> (ParseInt t 64 = None \<longrightarrow> comparePrereleases v other = 1 \<and> comparePrereleases other v = -1))
   \<and> (case (NewVersion ''1.0.0-alpha'', NewVersion ''1.0.0-alpha.1'',
             NewVersion ''1.0.0-alpha.beta'') of
         (Inr x, Inr y, Inr z) \<Rightarrow> LessThan x y \<and> GreaterThan x z | _ \<Rightarrow> False)"
proof -
  have ex: "case (NewVersion ''1.0.0-alpha'', NewVersion ''1.0.0-alpha.1'',
             NewVersion ''1.0.0-alpha.beta'') of
         (Inr x, Inr y, Inr z) \<Rightarrow> LessThan x y \<and> GreaterThan x z | _ \<Rightarrow> False"
    by code_simp
  have part: "(ParseInt t 64 \<noteq> None \<longrightarrow> comparePart [] t = -1 \<and> comparePart t [] = 1)
    \<and> (ParseInt t 64 = None \<longrightarrow> comparePart [] t = 1 \<and> comparePart t [] = -1)"
    if "t \<noteq> []" for t
    using that by (auto simp add: comparePart_def)
  have loop: "(ParseInt t 64 \<noteq> None \<longrightarrow> comparePrereleases v other = -1 \<and> comparePrereleases other v = 1)
    \<and> (ParseInt t 64 = None \<longrightarrow> comparePrereleases v other = 1 \<and> comparePrereleases other v = -1)"
    if h: "t \<noteq> []" "Split v = p" "Split other = p @ t # ts"
  proof -
    have ne: "v \<noteq> other" using h by auto
    have nz: "comparePart [] t \<noteq> 0" "comparePart t [] \<noteq> 0"
      using part [OF h(1)] by (cases "ParseInt t 64"; simp)+
    show ?thesis
      using ne h prereleaseLoop_missing_self [OF nz(1), of p ts]
        prereleaseLoop_missing_other [OF nz(2), of p ts] part [OF h(1)]
      by (simp add: comparePrereleases_def)
  qed
  from ex part loop show ?thesis by blast
qed

theorem empty_token_against_nonempty_witness:
  "comparePart [] ''1'' = -1 \<and> comparePart ''beta'' [] = -1
   \<and> comparePrereleases ''alpha'' ''alpha.1'' = -1
   \<and> comparePrereleases ''alpha'' ''alpha.beta'' = 1"
  using empty_token_against_nonempty
          [where t = "''1''" and v = "''alpha''" and other = "''alpha.1''"
             and p = "[''alpha'']" and ts = "[]"]
        empty_token_against_nonempty
          [where t = "''beta''" and v = "''alpha''" and other = "''alpha.beta''"
             and p = "[''alpha'']" and ts = "[]"]
  by (simp add: ParseInt_def ParseUint_def isDigit_def digitVal_def)

subsection \<open>Segment sequences of different lengths\<close>

text \<open>
  Claim C2. When the segment sequences are numerically equivalent but differ in length,
  the claim lets the prerelease rule decide, as it does for sequences of equal length.
  The segment loop of the source leaves by \<^verbatim>\<open>break\<close> and returns 0 without looking
  at the prereleases: \<^verbatim>\<open>1.0.0.0\<close> against \<^verbatim>\<open>1.0.0-beta\<close> gives 0, while
  \<^verbatim>\<open>1.0.0\<close> against \<^verbatim>\<open>1.0.0-beta\<close> gives 1.
\<close>

theorem Compare_jagged_ignores_prerelease:
  "NewVersion ''1.0.0.0''
     = Inr \<lparr>metadata = [], pre = [], segments = [1, 0, 0, 0], si = 4\<rparr>
   \<and> NewVersion ''1.0.0-beta''
     = Inr \<lparr>metadata = [], pre = ''beta'', segments = [1, 0, 0], si = 3\<rparr>
   \<and> NewVersion ''1.0.0''
     = Inr \<lparr>metadata = [], pre = [], segments = [1, 0, 0], si = 3\<rparr>
   \<and> Compare \<lparr>metadata = [], pre = [], segments = [1, 0, 0, 0], si = 4\<rparr>
             \<lparr>metadata = [], pre = ''beta'', segments = [1, 0, 0], si = 3\<rparr> = 0
   \<and> Compare \<lparr>metadata = [], pre = [], segments = [1, 0, 0], si = 3\<rparr>
             \<lparr>metadata = [], pre = ''beta'', segments = [1, 0, 0], si = 3\<rparr> = 1"
  by code_simp

subsection \<open>Padding of the segment sequence\<close>

lemma padLoop_replicate: "padLoop segs i = segs @ replicate (3 - i) 0"
proof (induction "3 - i" arbitrary: segs i)
  case 0
  then show ?case by (subst padLoop.simps) simp
next
  case (Suc n)
  then have lt: "i < 3" and ih: "padLoop (segs @ [0]) (i + 1) = (segs @ [0]) @ replicate (3 - (i + 1)) 0"
    by auto
  have "replicate (3 - i) (0::int) = 0 # replicate (3 - (i + 1)) 0"
    using lt by (cases "3 - i") auto
  with lt ih show ?case by (subst padLoop.simps) simp
qed

lemma convertLoop_result:
  "convertLoop strs segs n = Inr (r, k) \<Longrightarrow>
   \<exists>vals. r = segs @ vals \<and> k = n + int (length strs)
          \<and> map (\<lambda>t. ParseInt t 32) strs = map Some vals"
proof (induction strs arbitrary: segs n)
  case Nil
  then show ?case by simp
next
  case (Cons str rest)
  from Cons.prems obtain val where v: "ParseInt str 32 = Some val"
    and r: "convertLoop rest (segs @ [val]) (n + 1) = Inr (r, k)"
    by (auto split: option.splits)
  from Cons.IH [OF r] obtain vals where
    "r = (segs @ [val]) @ vals" "k = n + 1 + int (length rest)"
    "map (\<lambda>t. ParseInt t 32) rest = map Some vals"
    by blast
  with v show ?case
    by (intro exI [of _ "val # vals"]) simp
qed

lemma NewVersion_Inr:
  assumes "NewVersion s = Inr v"
  shows "\<exists>m comps. FindStringSubmatch versionRegexp s = Some m
            \<and> map (\<lambda>t. ParseInt t 32) (Split (m 1)) = map Some comps
            \<and> v = \<lparr>metadata = m 7, pre = m 4,
                   segments = comps @ replicate (3 - length comps) 0,
                   si = int (length comps)\<rparr>"
proof -
  from assms obtain m where m: "FindStringSubmatch versionRegexp s = Some m"
    by (auto simp add: NewVersion_def split: option.splits)
  with assms obtain segs k where c: "convertLoop (Split (m 1)) [] 0 = Inr (segs, k)"
    and v: "v = \<lparr>metadata = m 7, pre = m 4, segments = padLoop segs (length segs), si = k\<rparr>"
    by (auto simp add: NewVersion_def Let_def split: sum.splits)
  from convertLoop_result [OF c] have p: "map (\<lambda>t. ParseInt t 32) (Split (m 1)) = map Some segs"
    and k: "k = int (length (Split (m 1)))"
    by auto
  from p have "length (Split (m 1)) = length segs"
    using length_map by metis
  with m p k v show ?thesis
    by (auto simp add: padLoop_replicate)
qed

text \<open>
  Claim C9. Every successfully parsed Version has at least three segments: the numeric
  components of the input (the pieces of capture group 1, converted), right-padded with
  zeros; three or more components are stored as they are. \<^verbatim>\<open>1.2\<close> gives
  \<open>[1, 2, 0]\<close> and \<^verbatim>\<open>1\<close> gives \<open>[1, 0, 0]\<close>.
\<close>

theorem segments_padded_to_three:
  "(NewVersion s = Inr v \<longrightarrow>
      3 \<le> length (segments v)
    \<and> (\<exists>m comps. FindStringSubmatch versionRegexp s = Some m
          \<and> map (\<lambda>t. ParseInt t 32) (Split (m 1)) = map Some comps
          \<and> si v = int (length comps)
          \<and> Segments v = comps @ replicate (3 - length comps) 0
          \<and> (3 \<le> length comps \<longrightarrow> Segments v = comps)))
   \<and> map_sum id Segments (NewVersion ''1.2'') = Inr [1, 2, 0]
   \<and> map_sum id Segments (NewVersion ''1'') = Inr [1, 0, 0]
   \<and> map_sum id Segments (NewVersion ''1.2.3.4'') = Inr [1, 2, 3, 4]"
proof -
  have e1: "map_sum id Segments (NewVersion ''1.2'') = Inr [1, 2, 0]" by code_simp
  have e2: "map_sum id Segments (NewVersion ''1'') = Inr [1, 0, 0]" by code_simp
  have e3: "map_sum id Segments (NewVersion ''1.2.3.4'') = Inr [1, 2, 3, 4]" by code_simp
  have gen: "3 \<le> length (segments v)
    \<and> (\<exists>m comps. FindStringSubmatch versionRegexp s = Some m
          \<and> map (\<lambda>t. ParseInt t 32) (Split (m 1)) = map Some comps
          \<and> si v = int (length comps)
          \<and> Segments v = comps @ replicate (3 - length comps) 0
          \<and> (3 \<le> length comps \<longrightarrow> Segments v = comps))"
    if h: "NewVersion s = Inr v"
  proof -
    from NewVersion_Inr [OF h] obtain m comps where
      m: "FindStringSubmatch versionRegexp s = Some m"
      and p: "map (\<lambda>t. ParseInt t 32) (Split (m 1)) = map Some comps"
      and v: "v = \<lparr>metadata = m 7, pre = m 4,
                   segments = comps @ replicate (3 - length comps) 0,
                   si = int (length comps)\<rparr>"
      by blast
    have "3 \<le> length (segments v)" using v by simp
    moreover have "si v = int (length comps)" using v by simp
    moreover have "Segments v = comps @ replicate (3 - length comps) 0"
      using v by (simp add: Segments_def)
    moreover have "3 \<le> length comps \<longrightarrow> Segments v = comps"
      using v by (simp add: Segments_def)
    ultimately show ?thesis using m p by blast
  qed
  from e1 e2 e3 gen show ?thesis by blast
qed

theorem segments_padded_to_three_witness:
  "NewVersion ''1.2'' = Inr \<lparr>metadata = [], pre = [], segments = [1, 2, 0], si = 2\<rparr>
   \<and> 3 \<le> length (segments \<lparr>metadata = [], pre = [], segments = [1, 2, 0], si = 2\<rparr>)"
proof -
  have h: "NewVersion ''1.2'' = Inr \<lparr>metadata = [], pre = [], segments = [1, 2, 0], si = 2\<rparr>"
    by code_simp
  show ?thesis
    using h segments_padded_to_three
              [of "''1.2''" "\<lparr>metadata = [], pre = [], segments = [1, 2, 0], si = 2\<rparr>"]
    by blast
qed

subsection \<open>The matcher\<close>

text \<open>Every result of the matcher leaves a suffix of the input, and changes no capture
  group outside the expression.\<close>

lemma rmatch_suffix:
  "(s', c') \<in> set (rmatch r s c) \<Longrightarrow> \<exists>w. s = w @ s'"
proof (induction r s c arbitrary: s' c' rule: rmatch.induct)
  case (1 a s c)
  then show ?case by (auto split: list.splits if_splits)
next
  case (2 rs s c)
  then show ?case by (auto split: list.splits if_splits)
next
  case (3 r1 r2 s c)
  from "3.prems" obtain s1 c1 where a: "(s1, c1) \<in> set (rmatch r1 s c)"
    and b: "(s', c') \<in> set (rmatch r2 s1 c1)"
    by auto
  from "3.IH"(1) [OF a] obtain w1 where "s = w1 @ s1" by blast
  moreover from "3.IH"(2) [OF a refl b] obtain w2 where "s1 = w2 @ s'" by blast
  ultimately show ?case by auto
next
  case (4 r s c)
  then show ?case by auto
next
  case (5 r s c)
  then show ?case by auto
next
  case (6 r s c)
  show ?case
  proof (cases "(s', c') = (s, c)")
    case True
    then show ?thesis by simp
  next
    case False
    with "6.prems" obtain s1 c1 where a: "(s1, c1) \<in> set (rmatch r s c)"
      and l: "length s1 < length s"
      and b: "(s', c') \<in> set (rmatch (Star r) s1 c1)"
      by (subst (asm) rmatch.simps(6)) (auto split: if_splits)
    from "6.IH"(1) [OF a] obtain w1 where "s = w1 @ s1" by blast
    moreover from "6.IH"(2) [OF a refl l b] obtain w2 where "s1 = w2 @ s'" by blast
    ultimately show ?thesis by auto
  qed
next
  case (7 r s c)
  show ?case
  proof (cases "(s', c') = (s, c)")
    case True
    then show ?thesis by simp
  next
    case False
    with "7.prems" obtain s1 c1 where a: "(s1, c1) \<in> set (rmatch r s c)"
      and l: "length s1 < length s"
      and b: "(s', c') \<in> set (rmatch (StarLazy r) s1 c1)"
      by (subst (asm) rmatch.simps(7)) (auto split: if_splits)
    from "7.IH"(1) [OF a] obtain w1 where "s = w1 @ s1" by blast
    moreover from "7.IH"(2) [OF a refl l b] obtain w2 where "s1 = w2 @ s'" by blast
    ultimately show ?thesis by auto
  qed
next
  case (8 r s c)
  from "8.prems" obtain s1 c1 where a: "(s1, c1) \<in> set (rmatch r s c)"
    and b: "(s', c') = (s1, c1) \<or> (length s1 < length s \<and> (s', c') \<in> set (rmatch (Plus r) s1 c1))"
    by (subst (asm) rmatch.simps(8)) (auto split: if_splits)
  from "8.IH"(1) [OF a] obtain w1 where w1: "s = w1 @ s1" by blast
  from b show ?case
  proof
    assume "(s', c') = (s1, c1)"
    with w1 show ?thesis by auto
  next
    assume h: "length s1 < length s \<and> (s', c') \<in> set (rmatch (Plus r) s1 c1)"
    from "8.IH"(2) [OF a refl] h obtain w2 where "s1 = w2 @ s'" by blast
    with w1 show ?thesis by auto
  qed
next
  case (9 n r s c)
  then show ?case by auto
next
  case (10 s c)
  then show ?case by (auto split: if_splits)
qed

lemma rmatch_frame:
  "(s', c') \<in> set (rmatch r s c) \<Longrightarrow> n \<notin> groups r \<Longrightarrow> c' n = c n"
proof (induction r s c arbitrary: s' c' rule: rmatch.induct)
  case (1 a s c)
  then show ?case by (auto split: list.splits if_splits)
next
  case (2 rs s c)
  then show ?case by (auto split: list.splits if_splits)
next
  case (3 r1 r2 s c)
  from "3.prems" obtain s1 c1 where a: "(s1, c1) \<in> set (rmatch r1 s c)"
    and b: "(s', c') \<in> set (rmatch r2 s1 c1)"
    by auto
  from "3.IH"(1) [OF a] "3.prems"(2) have "c1 n = c n" by simp
  moreover from "3.IH"(2) [OF a refl b] "3.prems"(2) have "c' n = c1 n" by simp
  ultimately show ?case by simp
next
  case (4 r s c)
  then show ?case by auto
next
  case (5 r s c)
  then show ?case by auto
next
  case (6 r s c)
  show ?case
  proof (cases "(s', c') = (s, c)")
    case True
    then show ?thesis by simp
  next
    case False
    with "6.prems" obtain s1 c1 where a: "(s1, c1) \<in> set (rmatch r s c)"
      and l: "length s1 < length s"
      and b: "(s', c') \<in> set (rmatch (Star r) s1 c1)"
      by (subst (asm) rmatch.simps(6)) (auto split: if_splits)
    from "6.IH"(1) [OF a] "6.prems"(2) have "c1 n = c n" by simp
    moreover from "6.IH"(2) [OF a refl l b] "6.prems"(2) have "c' n = c1 n" by simp
    ultimately show ?thesis by simp
  qed
next
  case (7 r s c)
  show ?case
  proof (cases "(s', c') = (s, c)")
    case True
    then show ?thesis by simp
  next
    case False
    with "7.prems" obtain s1 c1 where a: "(s1, c1) \<in> set (rmatch r s c)"
      and l: "length s1 < length s"
      and b: "(s', c') \<in> set (rmatch (StarLazy r) s1 c1)"
      by (subst (asm) rmatch.simps(7)) (auto split: if_splits)
    from "7.IH"(1) [OF a] "7.prems"(2) have "c1 n = c n" by simp
    moreover from "7.IH"(2) [OF a refl l b] "7.prems"(2) have "c' n = c1 n" by simp
    ultimately show ?thesis by simp
  qed
next
  case (8 r s c)
  from "8.prems" obtain s1 c1 where a: "(s1, c1) \<in> set (rmatch r s c)"
    and b: "(s', c') = (s1, c1) \<or> (length s1 < length s \<and> (s', c') \<in> set (rmatch (Plus r) s1 c1))"
    by (subst (asm) rmatch.simps(8)) (auto split: if_splits)
  from "8.IH"(1) [OF a] "8.prems"(2) have c1: "c1 n = c n" by simp
  from b show ?case
  proof
    assume "(s', c') = (s1, c1)"
    with c1 show ?thesis by auto
  next
    assume h: "length s1 < length s \<and> (s', c') \<in> set (rmatch (Plus r) s1 c1)"
    from "8.IH"(2) [OF a refl] h "8.prems"(2) have "c' n = c1 n" by blast
    with c1 show ?thesis by auto
  qed
next
  case (9 k r s c)
  then show ?case by auto
next
  case (10 s c)
  then show ?case by (auto split: if_splits)
qed

lemma rmatch_Group_capture:
  assumes "(s', c') \<in> set (rmatch (Group n r) s c)"
  shows "\<exists>w c1. s = w @ s' \<and> c' = c1(n := w) \<and> (s', c1) \<in> set (rmatch r s c)"
proof -
  from assms obtain c1 where a: "(s', c1) \<in> set (rmatch r s c)"
    and c: "c' = c1(n := take (length s - length s') s)"
    by auto
  from rmatch_suffix [OF a] obtain w where "s = w @ s'" by blast
  with a c show ?thesis by auto
qed

lemma concat_map_concat_map:
  "concat (map f (concat (map g xs))) = concat (map (\<lambda>x. concat (map f (g x))) xs)"
  by (induction xs) simp_all

lemma rmatch_Cat_assoc: "rmatch (Cat (Cat a b) d) s c = rmatch (Cat a (Cat b d)) s c"
  by (simp add: concat_map_concat_map case_prod_unfold)

lemma rmatch_Plus_Ranges_Nil: "rmatch (Plus (Ranges rs)) [] c = []"
  by (subst rmatch.simps(8)) simp

lemma rmatch_Plus_Ranges_Cons:
  "rmatch (Plus (Ranges rs)) (x # xs) c =
     (if inRanges rs x then rmatch (Plus (Ranges rs)) xs c @ [(xs, c)] else [])"
  by (subst rmatch.simps(8)) simp

lemma Plus_sound:
  "(s', c') \<in> set (rmatch (Plus (Ranges rs)) s c) \<Longrightarrow>
   c' = c \<and> (\<exists>w. s = w @ s' \<and> isToken rs w)"
proof (induction s)
  case Nil
  then show ?case by (simp add: rmatch_Plus_Ranges_Nil)
next
  case (Cons x xs)
  from Cons.prems have x: "inRanges rs x"
    and d: "(s', c') \<in> set (rmatch (Plus (Ranges rs)) xs c) \<or> (s', c') = (xs, c)"
    by (auto simp add: rmatch_Plus_Ranges_Cons split: if_splits)
  from d show ?case
  proof
    assume "(s', c') \<in> set (rmatch (Plus (Ranges rs)) xs c)"
    from Cons.IH [OF this] obtain w where "c' = c" "xs = w @ s'" "isToken rs w" by blast
    with x show ?thesis
      by (intro conjI exI [of _ "x # w"]) (simp_all add: isToken_def)
  next
    assume "(s', c') = (xs, c)"
    with x show ?thesis
      by (intro conjI exI [of _ "[x]"]) (simp_all add: isToken_def)
  qed
qed

lemma Plus_fail:
  "u = [] \<or> \<not> inRanges rs (hd u) \<Longrightarrow> rmatch (Plus (Ranges rs)) u c = []"
  by (cases u) (auto simp add: rmatch_Plus_Ranges_Nil rmatch_Plus_Ranges_Cons)

lemma Plus_first:
  "isToken rs w \<Longrightarrow> u = [] \<or> \<not> inRanges rs (hd u) \<Longrightarrow>
   \<exists>rest. rmatch (Plus (Ranges rs)) (w @ u) c = (u, c) # rest"
proof (induction w)
  case Nil
  then show ?case by (simp add: isToken_def)
next
  case (Cons x w)
  show ?case
  proof (cases "w = []")
    case True
    with Cons.prems show ?thesis
      by (simp add: isToken_def rmatch_Plus_Ranges_Cons Plus_fail)
  next
    case False
    with Cons.prems have "isToken rs w" by (simp add: isToken_def)
    from Cons.IH [OF this Cons.prems(2)] obtain rest where
      "rmatch (Plus (Ranges rs)) (w @ u) c = (u, c) # rest" by blast
    with Cons.prems show ?thesis
      by (simp add: isToken_def rmatch_Plus_Ranges_Cons)
  qed
qed

lemma Star_cases:
  "(s', c') \<in> set (rmatch (Star r) s c) \<Longrightarrow>
   (s', c') = (s, c)
   \<or> (\<exists>s1 c1. (s1, c1) \<in> set (rmatch r s c) \<and> length s1 < length s
               \<and> (s', c') \<in> set (rmatch (Star r) s1 c1))"
  by (subst (asm) rmatch.simps(6)) (auto split: if_splits)

lemma StarLazy_cases:
  "(s', c') \<in> set (rmatch (StarLazy r) s c) \<Longrightarrow>
   (s', c') = (s, c)
   \<or> (\<exists>s1 c1. (s1, c1) \<in> set (rmatch r s c) \<and> length s1 < length s
               \<and> (s', c') \<in> set (rmatch (StarLazy r) s1 c1))"
  by (subst (asm) rmatch.simps(7)) (auto split: if_splits)

lemma Star_stop: "rmatch r s c = [] \<Longrightarrow> rmatch (Star r) s c = [(s, c)]"
  by (subst rmatch.simps(6)) simp

lemma Star_more:
  "rmatch r s c = (s1, c1) # rest1 \<Longrightarrow> length s1 < length s \<Longrightarrow>
   rmatch (Star r) s1 c1 = x # rest2 \<Longrightarrow> \<exists>rest. rmatch (Star r) s c = x # rest"
  by (subst rmatch.simps(6)) simp

lemma StarLazy_stop: "\<exists>rest. concat (map f (rmatch (StarLazy r) s c)) = f (s, c) @ rest"
  by (subst rmatch.simps(7)) simp

lemma StarLazy_more:
  "rmatch r s c = (s1, c1) # rest1 \<Longrightarrow> length s1 < length s \<Longrightarrow>
   \<exists>rest. concat (map f (rmatch (StarLazy r) s c))
           = f (s, c) @ concat (map f (rmatch (StarLazy r) s1 c1)) @ rest"
  by (subst rmatch.simps(7)) simp

lemma rmatch_dotToken:
  "rmatch (Group k (Cat (Lit CHR ''.'') (Plus (Ranges rs)))) s c =
     (case s of
        [] \<Rightarrow> []
      | x # xs \<Rightarrow>
          if x = CHR ''.''
          then map (\<lambda>(s', c'). (s', c'(k := take (length s - length s') s)))
                   (rmatch (Plus (Ranges rs)) xs c)
          else [])"
  by (cases s) simp_all

lemma dotToken_sound:
  assumes "(s', c') \<in> set (rmatch (Group k (Cat (Lit CHR ''.'') (Plus (Ranges rs)))) s c)"
  shows "\<exists>w. s = CHR ''.'' # w @ s' \<and> isToken rs w"
proof -
  from assms obtain xs c1 where s: "s = CHR ''.'' # xs"
    and m: "(s', c1) \<in> set (rmatch (Plus (Ranges rs)) xs c)"
    unfolding rmatch_dotToken by (auto split: list.splits if_splits)
  from Plus_sound [OF m] s show ?thesis by auto
qed

lemma dotToken_fail:
  "u = [] \<or> hd u \<noteq> CHR ''.'' \<Longrightarrow>
   rmatch (Group k (Cat (Lit CHR ''.'') (Plus (Ranges rs)))) u c = []"
  unfolding rmatch_dotToken by (cases u) auto

lemma dotToken_first:
  assumes "isToken rs w" "u = [] \<or> \<not> inRanges rs (hd u)"
  shows "\<exists>c1 rest. rmatch (Group k (Cat (Lit CHR ''.'') (Plus (Ranges rs)))) (CHR ''.'' # w @ u) c
                     = (u, c1) # rest"
proof -
  from Plus_first [OF assms, of c] obtain rest where
    "rmatch (Plus (Ranges rs)) (w @ u) c = (u, c) # rest" by blast
  then show ?thesis unfolding rmatch_dotToken by simp
qed

lemma Star_sound:
  "(s', c') \<in> set (rmatch (Star (Group k (Cat (Lit CHR ''.'') (Plus (Ranges rs))))) s c) \<Longrightarrow>
   \<exists>ws. list_all (isToken rs) ws \<and> s = concat (map ((#) CHR ''.'') ws) @ s'"
proof (induction "length s" arbitrary: s c rule: less_induct)
  case less
  show ?case
  proof (cases "(s', c') = (s, c)")
    case True
    then show ?thesis by (intro exI [of _ "[]"]) simp
  next
    case False
    with Star_cases [OF less.prems] obtain s1 c1 where
      a: "(s1, c1) \<in> set (rmatch (Group k (Cat (Lit CHR ''.'') (Plus (Ranges rs)))) s c)"
      and l: "length s1 < length s"
      and b: "(s', c') \<in> set (rmatch (Star (Group k (Cat (Lit CHR ''.'') (Plus (Ranges rs))))) s1 c1)"
      by blast
    from dotToken_sound [OF a] obtain w where w: "s = CHR ''.'' # w @ s1" "isToken rs w"
      by blast
    from less.hyps [OF l b] obtain ws where
      "list_all (isToken rs) ws" "s1 = concat (map ((#) CHR ''.'') ws) @ s'" by blast
    with w show ?thesis by (intro exI [of _ "w # ws"]) simp
  qed
qed

lemma StarLazy_sound:
  "(s', c') \<in> set (rmatch (StarLazy (Group k (Cat (Lit CHR ''.'') (Plus (Ranges rs))))) s c) \<Longrightarrow>
   \<exists>ws. list_all (isToken rs) ws \<and> s = concat (map ((#) CHR ''.'') ws) @ s'"
proof (induction "length s" arbitrary: s c rule: less_induct)
  case less
  show ?case
  proof (cases "(s', c') = (s, c)")
    case True
    then show ?thesis by (intro exI [of _ "[]"]) simp
  next
    case False
    with StarLazy_cases [OF less.prems] obtain s1 c1 where
      a: "(s1, c1) \<in> set (rmatch (Group k (Cat (Lit CHR ''.'') (Plus (Ranges rs)))) s c)"
      and l: "length s1 < length s"
      and b: "(s', c') \<in> set (rmatch (StarLazy (Group k (Cat (Lit CHR ''.'') (Plus (Ranges rs))))) s1 c1)"
      by blast
    from dotToken_sound [OF a] obtain w where w: "s = CHR ''.'' # w @ s1" "isToken rs w"
      by blast
    from less.hyps [OF l b] obtain ws where
      "list_all (isToken rs) ws" "s1 = concat (map ((#) CHR ''.'') ws) @ s'" by blast
    with w show ?thesis by (intro exI [of _ "w # ws"]) simp
  qed
qed

lemma Join_Cons: "Join (w # ws) = w @ concat (map ((#) CHR ''.'') ws)"
  by (induction ws arbitrary: w) simp_all

lemma Split_no_dot: "CHR ''.'' \<notin> set t \<Longrightarrow> Split t = [t]"
  by (induction t) auto

lemma Split_append_dot: "CHR ''.'' \<notin> set t \<Longrightarrow> Split (t @ CHR ''.'' # r) = t # Split r"
  by (induction t) auto

lemma Split_Join:
  "toks \<noteq> [] \<Longrightarrow> \<forall>t \<in> set toks. CHR ''.'' \<notin> set t \<Longrightarrow> Split (Join toks) = toks"
proof (induction toks rule: Join.induct)
  case 1
  then show ?case by simp
next
  case (2 x)
  then show ?case by (simp add: Split_no_dot)
next
  case (3 x y ys)
  then show ?case by (simp add: Split_append_dot)
qed

lemma isToken_no_dot: "isToken rs t \<Longrightarrow> \<not> inRanges rs CHR ''.'' \<Longrightarrow> CHR ''.'' \<notin> set t"
  by (auto simp add: isToken_def list_all_iff)

lemma tokenList_sound:
  assumes "(s', c') \<in> set (rmatch (Cat (Plus (Ranges rs))
                                      (Star (Group k (Cat (Lit CHR ''.'') (Plus (Ranges rs)))))) s c)"
  shows "\<exists>toks. toks \<noteq> [] \<and> list_all (isToken rs) toks \<and> s = Join toks @ s'"
proof -
  from assms obtain s1 c1 where a: "(s1, c1) \<in> set (rmatch (Plus (Ranges rs)) s c)"
    and b: "(s', c') \<in> set (rmatch (Star (Group k (Cat (Lit CHR ''.'') (Plus (Ranges rs))))) s1 c1)"
    by auto
  from Plus_sound [OF a] obtain w where w: "s = w @ s1" "isToken rs w" by blast
  from Star_sound [OF b] obtain ws where
    ws: "list_all (isToken rs) ws" "s1 = concat (map ((#) CHR ''.'') ws) @ s'" by blast
  from w ws show ?thesis
    by (intro exI [of _ "w # ws"]) (simp add: Join_Cons)
qed

lemma tokenListLazy_sound:
  assumes "(s', c') \<in> set (rmatch (Cat (Plus (Ranges rs))
                                      (StarLazy (Group k (Cat (Lit CHR ''.'') (Plus (Ranges rs)))))) s c)"
  shows "\<exists>toks. toks \<noteq> [] \<and> list_all (isToken rs) toks \<and> s = Join toks @ s'"
proof -
  from assms obtain s1 c1 where a: "(s1, c1) \<in> set (rmatch (Plus (Ranges rs)) s c)"
    and b: "(s', c') \<in> set (rmatch (StarLazy (Group k (Cat (Lit CHR ''.'') (Plus (Ranges rs))))) s1 c1)"
    by auto
  from Plus_sound [OF a] obtain w where w: "s = w @ s1" "isToken rs w" by blast
  from StarLazy_sound [OF b] obtain ws where
    ws: "list_all (isToken rs) ws" "s1 = concat (map ((#) CHR ''.'') ws) @ s'" by blast
  from w ws show ?thesis
    by (intro exI [of _ "w # ws"]) (simp add: Join_Cons)
qed

lemma Star_first:
  assumes "list_all (isToken rs) ws" "\<not> inRanges rs CHR ''.''"
    "u = [] \<or> (hd u \<noteq> CHR ''.'' \<and> \<not> inRanges rs (hd u))"
  shows "\<exists>c1 rest. rmatch (Star (Group k (Cat (Lit CHR ''.'') (Plus (Ranges rs)))))
                           (concat (map ((#) CHR ''.'') ws) @ u) c = (u, c1) # rest"
  using assms(1)
proof (induction ws arbitrary: c)
  case Nil
  have "rmatch (Group k (Cat (Lit CHR ''.'') (Plus (Ranges rs)))) u c = []"
    using assms(3) by (intro dotToken_fail) auto
  from Star_stop [OF this] show ?case by simp
next
  case (Cons w ws)
  define u1 where "u1 = concat (map ((#) CHR ''.'') ws) @ u"
  define s where "s = CHR ''.'' # w @ u1"
  have b: "u1 = [] \<or> \<not> inRanges rs (hd u1)"
    using assms(2,3) unfolding u1_def by (cases ws) auto
  from Cons.prems have w: "isToken rs w" and ws: "list_all (isToken rs) ws" by simp_all
  from dotToken_first [OF w b, of k c] obtain c1 rest1 where
    d: "rmatch (Group k (Cat (Lit CHR ''.'') (Plus (Ranges rs)))) s c = (u1, c1) # rest1"
    unfolding s_def by blast
  from Cons.IH [OF ws, of c1] obtain c2 rest2 where
    i: "rmatch (Star (Group k (Cat (Lit CHR ''.'') (Plus (Ranges rs))))) u1 c1 = (u, c2) # rest2"
    unfolding u1_def by blast
  have l: "length u1 < length s" by (simp add: s_def)
  have e: "concat (map ((#) CHR ''.'') (w # ws)) @ u = s"
    unfolding s_def u1_def by simp
  from Star_more [OF d l i] show ?case unfolding e by blast
qed

lemma tokenList_first:
  assumes "toks \<noteq> []" "list_all (isToken rs) toks" "\<not> inRanges rs CHR ''.''"
    "u = [] \<or> (hd u \<noteq> CHR ''.'' \<and> \<not> inRanges rs (hd u))"
  shows "\<exists>c1 rest. rmatch (Cat (Plus (Ranges rs))
                                (Star (Group k (Cat (Lit CHR ''.'') (Plus (Ranges rs))))))
                           (Join toks @ u) c = (u, c1) # rest"
proof -
  from assms(1) obtain w ws where t: "toks = w # ws" by (cases toks) auto
  define u1 where "u1 = concat (map ((#) CHR ''.'') ws) @ u"
  have b: "u1 = [] \<or> \<not> inRanges rs (hd u1)"
    using assms(3,4) unfolding u1_def by (cases ws) auto
  from assms(2) t have w: "isToken rs w" and ws: "list_all (isToken rs) ws" by simp_all
  from Plus_first [OF w b, of c] obtain rest1 where
    p: "rmatch (Plus (Ranges rs)) (w @ u1) c = (u1, c) # rest1" by blast
  from Star_first [OF ws assms(3,4), of k c] obtain c2 rest2 where
    i: "rmatch (Star (Group k (Cat (Lit CHR ''.'') (Plus (Ranges rs))))) u1 c = (u, c2) # rest2"
    unfolding u1_def by blast
  have "Join toks @ u = w @ u1"
    unfolding u1_def t by (simp add: Join_Cons)
  then show ?thesis using p i by simp
qed

lemma StarLazy_first:
  assumes "list_all (isToken rs) ws" "\<not> inRanges rs CHR ''.''"
    "u = [] \<or> (hd u \<noteq> CHR ''.'' \<and> \<not> inRanges rs (hd u))"
    "\<And>x c. x \<noteq> [] \<Longrightarrow> hd x = CHR ''.'' \<Longrightarrow> f (x, c) = []"
  shows "\<exists>c1 rest. concat (map f (rmatch (StarLazy (Group k (Cat (Lit CHR ''.'') (Plus (Ranges rs)))))
                                        (concat (map ((#) CHR ''.'') ws) @ u) c))
                     = f (u, c1) @ rest \<and> (\<forall>n. n \<noteq> k \<longrightarrow> c1 n = c n)"
  using assms(1)
proof (induction ws arbitrary: c)
  case Nil
  from StarLazy_stop [of f "Group k (Cat (Lit CHR ''.'') (Plus (Ranges rs)))" u c]
  obtain rest where
    "concat (map f (rmatch (StarLazy (Group k (Cat (Lit CHR ''.'') (Plus (Ranges rs))))) u c))
     = f (u, c) @ rest" by blast
  then show ?case by (intro exI [of _ c] exI [of _ rest]) simp
next
  case (Cons w ws)
  define u1 where "u1 = concat (map ((#) CHR ''.'') ws) @ u"
  define s where "s = CHR ''.'' # w @ u1"
  have b: "u1 = [] \<or> \<not> inRanges rs (hd u1)"
    using assms(2,3) unfolding u1_def by (cases ws) auto
  from Cons.prems have w: "isToken rs w" and ws: "list_all (isToken rs) ws" by simp_all
  from dotToken_first [OF w b, of k c] obtain c1 rest1 where
    d: "rmatch (Group k (Cat (Lit CHR ''.'') (Plus (Ranges rs)))) s c = (u1, c1) # rest1"
    unfolding s_def by blast
  then have "(u1, c1) \<in> set (rmatch (Group k (Cat (Lit CHR ''.'') (Plus (Ranges rs)))) s c)"
    by simp
  from rmatch_frame [OF this] have fr1: "\<forall>n. n \<noteq> k \<longrightarrow> c1 n = c n" by simp
  from Cons.IH [OF ws, of c1] obtain c2 rest2 where
    i: "concat (map f (rmatch (StarLazy (Group k (Cat (Lit CHR ''.'') (Plus (Ranges rs))))) u1 c1))
        = f (u, c2) @ rest2" and fr2: "\<forall>n. n \<noteq> k \<longrightarrow> c2 n = c1 n"
    unfolding u1_def by blast
  have fs: "f (s, c) = []"
    by (rule assms(4)) (simp_all add: s_def)
  have l: "length u1 < length s" by (simp add: s_def)
  have e: "concat (map ((#) CHR ''.'') (w # ws)) @ u = s"
    unfolding s_def u1_def by simp
  from StarLazy_more [OF d l, of f] obtain rest where
    "concat (map f (rmatch (StarLazy (Group k (Cat (Lit CHR ''.'') (Plus (Ranges rs))))) s c))
     = f (s, c) @ concat (map f (rmatch (StarLazy (Group k (Cat (Lit CHR ''.'') (Plus (Ranges rs))))) u1 c1)) @ rest"
    by blast
  then have "concat (map f (rmatch (StarLazy (Group k (Cat (Lit CHR ''.'') (Plus (Ranges rs))))) s c))
     = f (u, c2) @ (rest2 @ rest)"
    using fs i by simp
  then show ?case unfolding e using fr1 fr2 by auto
qed

lemma Cat_cases:
  "(s', c') \<in> set (rmatch (Cat a b) s c) \<Longrightarrow>
   \<exists>s1 c1. (s1, c1) \<in> set (rmatch a s c) \<and> (s', c') \<in> set (rmatch b s1 c1)"
  by auto

lemma Quest_cases:
  "(s', c') \<in> set (rmatch (Quest r) s c) \<Longrightarrow>
   (s', c') = (s, c) \<or> (s', c') \<in> set (rmatch r s c)"
  by auto

lemma QuestLazy_cases:
  "(s', c') \<in> set (rmatch (QuestLazy r) s c) \<Longrightarrow>
   (s', c') = (s, c) \<or> (s', c') \<in> set (rmatch r s c)"
  by auto

lemma Lit_cases:
  "(s', c') \<in> set (rmatch (Lit a) s c) \<Longrightarrow> s = a # s' \<and> c' = c"
  by (auto split: list.splits if_splits)

lemma Eol_cases:
  "(s', c') \<in> set (rmatch Eol s c) \<Longrightarrow> s = [] \<and> s' = [] \<and> c' = c"
  by (auto split: if_splits)

lemma Cat_first:
  "rmatch a s c = (s1, c1) # rest1 \<Longrightarrow> rmatch b s1 c1 = x # rest2 \<Longrightarrow>
   \<exists>rest. rmatch (Cat a b) s c = x # rest"
  by simp

lemma Cat_single:
  "rmatch a s c = [(s1, c1)] \<Longrightarrow> rmatch (Cat a b) s c = rmatch b s1 c1"
  by simp

lemma Cat_none: "rmatch a s c = [] \<Longrightarrow> rmatch (Cat a b) s c = []"
  by simp

lemma Quest_first: "rmatch r s c = x # rest \<Longrightarrow> \<exists>rest'. rmatch (Quest r) s c = x # rest'"
  by simp

lemma Quest_skip: "rmatch r s c = [] \<Longrightarrow> rmatch (Quest r) s c = [(s, c)]"
  by simp

lemma QuestLazy_skip: "rmatch r s c = [] \<Longrightarrow> rmatch (QuestLazy r) s c = [(s, c)]"
  by simp

lemma Group_first:
  "rmatch r (w @ s') c = (s', c') # rest \<Longrightarrow>
   \<exists>rest'. rmatch (Group n r) (w @ s') c = (s', c'(n := w)) # rest'"
  by simp

lemma Group_none: "rmatch r s c = [] \<Longrightarrow> rmatch (Group n r) s c = []"
  by simp

lemma Lit_match: "rmatch (Lit a) (a # s) c = [(s, c)]"
  by simp

lemma Lit_fail: "s = [] \<or> hd s \<noteq> a \<Longrightarrow> rmatch (Lit a) s c = []"
  by (cases s) auto

lemma Eol_match: "rmatch Eol [] c = [([], c)]"
  by simp

lemma Eol_fail: "s \<noteq> [] \<Longrightarrow> rmatch Eol s c = []"
  by simp

lemma Cat_cong:
  assumes "\<And>s c. rmatch b s c = rmatch b' s c"
  shows "rmatch (Cat a b) s c = rmatch (Cat a b') s c"
proof -
  have "(\<lambda>(x, y). rmatch b x y) = (\<lambda>(x, y). rmatch b' x y)"
    by (simp add: assms fun_eq_iff)
  then show ?thesis by simp
qed

lemma versionRegexp_assoc:
  "rmatch versionRegexp s c
   = rmatch (Cat segmentsLine (Cat prereleaseLine (Cat metadataLine Eol))) s c"
proof -
  have "rmatch versionRegexp s c
        = rmatch (Cat segmentsLine (Cat (Cat prereleaseLine metadataLine) Eol)) s c"
    unfolding versionRegexp_def VersionRegexpRaw_def by (rule rmatch_Cat_assoc)
  also have "\<dots> = rmatch (Cat segmentsLine (Cat prereleaseLine (Cat metadataLine Eol))) s c"
    by (rule Cat_cong) (rule rmatch_Cat_assoc)
  finally show ?thesis .
qed

declare rmatch.simps [simp del]

lemma Join_Split: "Join (Split s) = s"
proof (induction s)
  case Nil
  then show ?case by simp
next
  case (Cons c cs)
  obtain t ts where t: "Split cs = t # ts" by (cases "Split cs") (cases cs, auto split: list.splits if_splits)
  with Cons show ?case by (auto simp add: Join_Cons)
qed

lemma Join_not_Nil: "toks \<noteq> [] \<Longrightarrow> list_all (isToken rs) toks \<Longrightarrow> Join toks \<noteq> []"
  by (cases toks) (auto simp add: Join_Cons isToken_def)

lemma no_dot_digit: "\<not> inRanges digitRanges CHR ''.''"
  by (simp add: digitRanges_def)

lemma no_dot_alnumDash: "\<not> inRanges alnumDashRanges CHR ''.''"
  by (simp add: alnumDashRanges_def)

lemma isTokenList_Join:
  assumes "toks \<noteq> []" "list_all (isToken rs) toks" "\<not> inRanges rs CHR ''.''"
  shows "isTokenList rs (Join toks)"
proof -
  have "\<forall>t \<in> set toks. CHR ''.'' \<notin> set t"
    using assms(2,3) isToken_no_dot by (auto simp add: list_all_iff)
  from Split_Join [OF assms(1) this] assms(2) show ?thesis
    by (simp add: isTokenList_def)
qed

lemma segmentsLine_sound:
  assumes "(s', c') \<in> set (rmatch segmentsLine s c)"
  shows "\<exists>pfx. (pfx = [] \<or> pfx = ''v'') \<and> isTokenList digitRanges (c' 1)
               \<and> s = pfx @ c' 1 @ s' \<and> (\<forall>n. n \<notin> {1, 2} \<longrightarrow> c' n = c n)"
proof -
  have fr: "\<forall>n. n \<notin> {1, 2} \<longrightarrow> c' n = c n"
    using rmatch_frame [OF assms] by (simp add: segmentsLine_def digit_def)
  from assms obtain s0 c0 where
    a: "(s0, c0) \<in> set (rmatch (Quest (Lit CHR ''v'')) s c)"
    and b: "(s', c') \<in> set (rmatch (Group 1 (Cat (Plus (Ranges digitRanges))
               (StarLazy (Group 2 (Cat (Lit CHR ''.'') (Plus (Ranges digitRanges))))))) s0 c0)"
    unfolding segmentsLine_def digit_def using Cat_cases by blast
  from Quest_cases [OF a] Lit_cases have p: "s = s0 \<or> s = CHR ''v'' # s0" by blast
  from rmatch_Group_capture [OF b] obtain w c1 where
    w: "s0 = w @ s'" "c' = c1(1 := w)"
    and m: "(s', c1) \<in> set (rmatch (Cat (Plus (Ranges digitRanges))
               (StarLazy (Group 2 (Cat (Lit CHR ''.'') (Plus (Ranges digitRanges)))))) s0 c0)"
    by blast
  from tokenListLazy_sound [OF m] obtain toks where
    t: "toks \<noteq> []" "list_all (isToken digitRanges) toks" "s0 = Join toks @ s'" by blast
  from w t have c1: "c' 1 = Join toks" by simp
  have "isTokenList digitRanges (c' 1)"
    unfolding c1 using t no_dot_digit by (intro isTokenList_Join)
  moreover have "s = [] @ c' 1 @ s' \<or> s = ''v'' @ c' 1 @ s'"
    using p t c1 by auto
  ultimately show ?thesis using fr by blast
qed

lemma prereleaseLine_sound:
  assumes "(s', c') \<in> set (rmatch prereleaseLine s c)"
  shows "((s', c') = (s, c)
          \<or> (\<exists>dash. (dash = [] \<or> dash = ''-'') \<and> isTokenList alnumDashRanges (c' 4)
                    \<and> c' 4 \<noteq> [] \<and> s = dash @ c' 4 @ s'))
         \<and> (\<forall>n. n \<notin> {3, 4, 5} \<longrightarrow> c' n = c n)"
proof -
  have fr: "\<forall>n. n \<notin> {3, 4, 5} \<longrightarrow> c' n = c n"
    using rmatch_frame [OF assms] by (simp add: prereleaseLine_def alnumDash_def)
  have "(s', c') = (s, c)
          \<or> (\<exists>dash. (dash = [] \<or> dash = ''-'') \<and> isTokenList alnumDashRanges (c' 4)
                    \<and> c' 4 \<noteq> [] \<and> s = dash @ c' 4 @ s')"
  proof (cases "(s', c') = (s, c)")
    case True
    then show ?thesis by simp
  next
    case False
    with assms have g: "(s', c') \<in> set (rmatch (Group 3 (Cat (Quest (Lit CHR ''-''))
        (Group 4 (Cat (Plus (Ranges alnumDashRanges))
           (Star (Group 5 (Cat (Lit CHR ''.'') (Plus (Ranges alnumDashRanges))))))))) s c)"
      unfolding prereleaseLine_def alnumDash_def using Quest_cases by blast
    from rmatch_Group_capture [OF g] obtain w3 c3 where
      w3: "c' = c3(3 := w3)"
      and m3: "(s', c3) \<in> set (rmatch (Cat (Quest (Lit CHR ''-''))
        (Group 4 (Cat (Plus (Ranges alnumDashRanges))
           (Star (Group 5 (Cat (Lit CHR ''.'') (Plus (Ranges alnumDashRanges)))))))) s c)"
      by blast
    from Cat_cases [OF m3] obtain s0 c0 where
      a: "(s0, c0) \<in> set (rmatch (Quest (Lit CHR ''-'')) s c)"
      and b: "(s', c3) \<in> set (rmatch (Group 4 (Cat (Plus (Ranges alnumDashRanges))
           (Star (Group 5 (Cat (Lit CHR ''.'') (Plus (Ranges alnumDashRanges))))))) s0 c0)"
      by blast
    from Quest_cases [OF a] Lit_cases have p: "s = s0 \<or> s = CHR ''-'' # s0" by blast
    from rmatch_Group_capture [OF b] obtain w4 c4 where
      w4: "s0 = w4 @ s'" "c3 = c4(4 := w4)"
      and m4: "(s', c4) \<in> set (rmatch (Cat (Plus (Ranges alnumDashRanges))
           (Star (Group 5 (Cat (Lit CHR ''.'') (Plus (Ranges alnumDashRanges)))))) s0 c0)"
      by blast
    from tokenList_sound [OF m4] obtain toks where
      t: "toks \<noteq> []" "list_all (isToken alnumDashRanges) toks" "s0 = Join toks @ s'" by blast
    from w3 w4 t have c4: "c' 4 = Join toks" by simp
    have "isTokenList alnumDashRanges (c' 4)"
      unfolding c4 using t no_dot_alnumDash by (intro isTokenList_Join)
    moreover have "c' 4 \<noteq> []" unfolding c4 using t by (intro Join_not_Nil)
    moreover have "s = [] @ c' 4 @ s' \<or> s = ''-'' @ c' 4 @ s'"
      using p t c4 by auto
    ultimately show ?thesis by blast
  qed
  with fr show ?thesis by blast
qed

lemma metadataLine_sound:
  assumes "(s', c') \<in> set (rmatch metadataLine s c)"
  shows "((s', c') = (s, c)
          \<or> (isTokenList alnumDashRanges (c' 7) \<and> c' 7 \<noteq> [] \<and> s = CHR ''+'' # c' 7 @ s'))
         \<and> (\<forall>n. n \<notin> {6, 7, 8} \<longrightarrow> c' n = c n)"
proof -
  have fr: "\<forall>n. n \<notin> {6, 7, 8} \<longrightarrow> c' n = c n"
    using rmatch_frame [OF assms] by (simp add: metadataLine_def alnumDash_def)
  have "(s', c') = (s, c)
          \<or> (isTokenList alnumDashRanges (c' 7) \<and> c' 7 \<noteq> [] \<and> s = CHR ''+'' # c' 7 @ s')"
  proof (cases "(s', c') = (s, c)")
    case True
    then show ?thesis by simp
  next
    case False
    with assms have g: "(s', c') \<in> set (rmatch (Group 6 (Cat (Lit CHR ''+'')
        (Group 7 (Cat (Plus (Ranges alnumDashRanges))
           (Star (Group 8 (Cat (Lit CHR ''.'') (Plus (Ranges alnumDashRanges))))))))) s c)"
      unfolding metadataLine_def alnumDash_def using QuestLazy_cases by blast
    from rmatch_Group_capture [OF g] obtain w6 c6 where
      w6: "c' = c6(6 := w6)"
      and m6: "(s', c6) \<in> set (rmatch (Cat (Lit CHR ''+'')
        (Group 7 (Cat (Plus (Ranges alnumDashRanges))
           (Star (Group 8 (Cat (Lit CHR ''.'') (Plus (Ranges alnumDashRanges)))))))) s c)"
      by blast
    from Cat_cases [OF m6] obtain s0 c0 where
      a: "(s0, c0) \<in> set (rmatch (Lit CHR ''+'') s c)"
      and b: "(s', c6) \<in> set (rmatch (Group 7 (Cat (Plus (Ranges alnumDashRanges))
           (Star (Group 8 (Cat (Lit CHR ''.'') (Plus (Ranges alnumDashRanges))))))) s0 c0)"
      by blast
    from Lit_cases [OF a] have p: "s = CHR ''+'' # s0" by blast
    from rmatch_Group_capture [OF b] obtain w7 c7 where
      w7: "s0 = w7 @ s'" "c6 = c7(7 := w7)"
      and m7: "(s', c7) \<in> set (rmatch (Cat (Plus (Ranges alnumDashRanges))
           (Star (Group 8 (Cat (Lit CHR ''.'') (Plus (Ranges alnumDashRanges)))))) s0 c0)"
      by blast
    from tokenList_sound [OF m7] obtain toks where
      t: "toks \<noteq> []" "list_all (isToken alnumDashRanges) toks" "s0 = Join toks @ s'" by blast
    from w6 w7 t have c7: "c' 7 = Join toks" by simp
    have "isTokenList alnumDashRanges (c' 7)"
      unfolding c7 using t no_dot_alnumDash by (intro isTokenList_Join)
    moreover have "c' 7 \<noteq> []" unfolding c7 using t by (intro Join_not_Nil)
    moreover have "s = CHR ''+'' # c' 7 @ s'"
      using p t c7 by auto
    ultimately show ?thesis by blast
  qed
  with fr show ?thesis by blast
qed

lemma versionRegexp_sound:
  assumes "(s', c') \<in> set (rmatch versionRegexp s (\<lambda>_. []))"
  shows "s' = [] \<and>
         (\<exists>pfx dash. (pfx = [] \<or> pfx = ''v'') \<and> (dash = [] \<or> dash = ''-'')
            \<and> isTokenList digitRanges (c' 1)
            \<and> (c' 4 = [] \<or> isTokenList alnumDashRanges (c' 4))
            \<and> (c' 7 = [] \<or> isTokenList alnumDashRanges (c' 7))
            \<and> s = pfx @ c' 1 @ (if c' 4 = [] then [] else dash @ c' 4)
                   @ (if c' 7 = [] then [] else CHR ''+'' # c' 7))"
proof -
  from assms have "(s', c') \<in> set (rmatch (Cat segmentsLine (Cat prereleaseLine (Cat metadataLine Eol))) s (\<lambda>_. []))"
    unfolding versionRegexp_assoc .
  from Cat_cases [OF this] obtain s1 c1 where
    m1: "(s1, c1) \<in> set (rmatch segmentsLine s (\<lambda>_. []))"
    and n1: "(s', c') \<in> set (rmatch (Cat prereleaseLine (Cat metadataLine Eol)) s1 c1)"
    by blast
  from Cat_cases [OF n1] obtain s2 c2 where
    m2: "(s2, c2) \<in> set (rmatch prereleaseLine s1 c1)"
    and n2: "(s', c') \<in> set (rmatch (Cat metadataLine Eol) s2 c2)"
    by blast
  from Cat_cases [OF n2] obtain s3 c3 where
    m3: "(s3, c3) \<in> set (rmatch metadataLine s2 c2)"
    and m4: "(s', c') \<in> set (rmatch Eol s3 c3)"
    by blast
  from Eol_cases [OF m4] have e: "s3 = []" "s' = []" "c' = c3" by simp_all
  from segmentsLine_sound [OF m1] obtain pfx where
    p: "pfx = [] \<or> pfx = ''v''" "isTokenList digitRanges (c1 1)" "s = pfx @ c1 1 @ s1"
    and fr1: "\<forall>n. n \<notin> {1, 2} \<longrightarrow> c1 n = []"
    by blast
  have f1: "c1 4 = []" "c1 7 = []" using fr1 by simp_all
  from prereleaseLine_sound [OF m2] have
    q: "(s2, c2) = (s1, c1)
        \<or> (\<exists>dash. (dash = [] \<or> dash = ''-'') \<and> isTokenList alnumDashRanges (c2 4)
                    \<and> c2 4 \<noteq> [] \<and> s1 = dash @ c2 4 @ s2)"
    and fr2: "\<forall>n. n \<notin> {3, 4, 5} \<longrightarrow> c2 n = c1 n"
    by blast+
  have f2: "c2 1 = c1 1" "c2 7 = c1 7" using fr2 by simp_all
  from metadataLine_sound [OF m3] have
    r: "(s3, c3) = (s2, c2)
        \<or> (isTokenList alnumDashRanges (c3 7) \<and> c3 7 \<noteq> [] \<and> s2 = CHR ''+'' # c3 7 @ s3)"
    and fr3: "\<forall>n. n \<notin> {6, 7, 8} \<longrightarrow> c3 n = c2 n"
    by blast+
  have f3: "c3 1 = c2 1" "c3 4 = c2 4" using fr3 by simp_all
  have k1: "c' 1 = c1 1" using e f2 f3 by simp
  have k4: "c' 4 = c2 4" using e f3 by simp
  have k7: "c' 7 = c3 7" using e by simp
  have pre: "\<exists>dash. (dash = [] \<or> dash = ''-'')
        \<and> (c' 4 = [] \<or> isTokenList alnumDashRanges (c' 4))
        \<and> s1 = (if c' 4 = [] then [] else dash @ c' 4) @ s2"
    using q
  proof
    assume "(s2, c2) = (s1, c1)"
    then have "c' 4 = []" "s1 = s2" using k4 f1 by simp_all
    then show ?thesis by (intro exI [of _ "[]"]) simp
  next
    assume "\<exists>dash. (dash = [] \<or> dash = ''-'') \<and> isTokenList alnumDashRanges (c2 4)
                    \<and> c2 4 \<noteq> [] \<and> s1 = dash @ c2 4 @ s2"
    then obtain dash where "dash = [] \<or> dash = ''-''" "isTokenList alnumDashRanges (c' 4)"
      "c' 4 \<noteq> []" "s1 = dash @ c' 4 @ s2"
      unfolding k4 by blast
    then show ?thesis by (intro exI [of _ dash]) simp
  qed
  have meta: "(c' 7 = [] \<or> isTokenList alnumDashRanges (c' 7))
        \<and> s2 = (if c' 7 = [] then [] else CHR ''+'' # c' 7)"
    using r
  proof
    assume "(s3, c3) = (s2, c2)"
    then have "c' 7 = []" "s2 = []" using k7 f1 f2 e by simp_all
    then show ?thesis by simp
  next
    assume "isTokenList alnumDashRanges (c3 7) \<and> c3 7 \<noteq> [] \<and> s2 = CHR ''+'' # c3 7 @ s3"
    then show ?thesis unfolding k7 using e by simp
  qed
  from pre obtain dash where
    d: "dash = [] \<or> dash = ''-''" "c' 4 = [] \<or> isTokenList alnumDashRanges (c' 4)"
       "s1 = (if c' 4 = [] then [] else dash @ c' 4) @ s2"
    by blast
  have "s = pfx @ c' 1 @ (if c' 4 = [] then [] else dash @ c' 4)
                   @ (if c' 7 = [] then [] else CHR ''+'' # c' 7)"
    using p(3) d(3) meta k1 by simp
  moreover have "isTokenList digitRanges (c' 1)" using p(2) k1 by simp
  ultimately show ?thesis using p(1) d(1,2) meta e(2) by blast
qed

lemma plus_not_alnumDash: "\<not> inRanges alnumDashRanges CHR ''+''"
  by (simp add: alnumDashRanges_def)

lemma prereleaseLine_skip:
  assumes "x = [] \<or> \<not> inRanges alnumDashRanges (hd x)"
  shows "rmatch prereleaseLine x c = [(x, c)]"
proof -
  have "inRanges alnumDashRanges CHR ''-''" by (simp add: alnumDashRanges_def)
  with assms have "x = [] \<or> hd x \<noteq> CHR ''-''" by auto
  then have "rmatch (Quest (Lit CHR ''-'')) x c = [(x, c)]"
    by (intro Quest_skip Lit_fail)
  moreover have "rmatch (Group 4 (Cat (Plus (Ranges alnumDashRanges))
           (Star (Group 5 (Cat (Lit CHR ''.'') (Plus (Ranges alnumDashRanges))))))) x c = []"
    using assms by (intro Group_none Cat_none Plus_fail)
  ultimately have "rmatch (Cat (Quest (Lit CHR ''-''))
        (Group 4 (Cat (Plus (Ranges alnumDashRanges))
           (Star (Group 5 (Cat (Lit CHR ''.'') (Plus (Ranges alnumDashRanges)))))))) x c = []"
    by (simp add: Cat_single)
  then show ?thesis
    unfolding prereleaseLine_def alnumDash_def by (intro Quest_skip Group_none)
qed

lemma metadataLine_skip:
  assumes "x = [] \<or> hd x \<noteq> CHR ''+''"
  shows "rmatch metadataLine x c = [(x, c)]"
  unfolding metadataLine_def using assms
  by (intro QuestLazy_skip Group_none Cat_none Lit_fail)

lemma tail_fail:
  assumes "x \<noteq> []" "hd x \<noteq> CHR ''+''" "\<not> inRanges alnumDashRanges (hd x)"
  shows "rmatch (Cat prereleaseLine (Cat metadataLine Eol)) x c = []"
proof -
  have "rmatch (Cat metadataLine Eol) x c = rmatch Eol x c"
    using assms by (intro Cat_single metadataLine_skip) simp
  then have "rmatch (Cat metadataLine Eol) x c = []"
    using assms by (simp add: Eol_fail)
  moreover have "rmatch (Cat prereleaseLine (Cat metadataLine Eol)) x c
                 = rmatch (Cat metadataLine Eol) x c"
    using assms by (intro Cat_single prereleaseLine_skip) simp
  ultimately show ?thesis by simp
qed

lemma QuestLazy_Cat:
  "rmatch b s c = [] \<Longrightarrow> rmatch (Cat (QuestLazy r) b) s c = rmatch (Cat r b) s c"
  by (simp add: rmatch.simps(3,5))

lemma tokenList_Split:
  assumes "isTokenList rs q"
  shows "Split q \<noteq> [] \<and> list_all (isToken rs) (Split q) \<and> Join (Split q) = q"
proof -
  have "Split q \<noteq> []" by (cases q) (auto split: list.splits)
  with assms show ?thesis by (simp add: isTokenList_def Join_Split)
qed

lemma metadata_Eol_first:
  assumes "q = [] \<or> isTokenList alnumDashRanges q"
  shows "\<exists>c1 rest. rmatch (Cat metadataLine Eol) (if q = [] then [] else CHR ''+'' # q) c
                     = ([], c1) # rest
                   \<and> c1 7 = (if q = [] then c 7 else q)
                   \<and> (\<forall>n. n \<notin> {6, 7, 8} \<longrightarrow> c1 n = c n)"
proof (cases "q = []")
  case True
  have "rmatch (Cat metadataLine Eol) [] c = rmatch Eol [] c"
    by (intro Cat_single metadataLine_skip) simp
  with True show ?thesis by (simp add: Eol_match)
next
  case False
  with assms have tl: "isTokenList alnumDashRanges q" by simp
  from tokenList_Split [OF tl] have t: "Split q \<noteq> []"
    "list_all (isToken alnumDashRanges) (Split q)" "Join (Split q) = q" by simp_all
  from tokenList_first [OF t(1,2) no_dot_alnumDash, of "[]" 8 c] obtain c8 rest8 where
    "rmatch (Cat (Plus (Ranges alnumDashRanges))
           (Star (Group 8 (Cat (Lit CHR ''.'') (Plus (Ranges alnumDashRanges)))))) (q @ []) c
     = ([], c8) # rest8"
    unfolding t(3) by auto
  from Group_first [OF this, of 7] obtain rest7 where
    g7: "rmatch (Group 7 (Cat (Plus (Ranges alnumDashRanges))
           (Star (Group 8 (Cat (Lit CHR ''.'') (Plus (Ranges alnumDashRanges))))))) q c
     = ([], c8(7 := q)) # rest7"
    by auto
  have "rmatch (Cat (Lit CHR ''+'') (Group 7 (Cat (Plus (Ranges alnumDashRanges))
           (Star (Group 8 (Cat (Lit CHR ''.'') (Plus (Ranges alnumDashRanges)))))))) ((CHR ''+'' # q) @ []) c
     = ([], c8(7 := q)) # rest7"
    using g7 by (simp add: Cat_single [OF Lit_match])
  from Group_first [OF this, of 6] obtain rest6 where
    g6: "rmatch (Group 6 (Cat (Lit CHR ''+'') (Group 7 (Cat (Plus (Ranges alnumDashRanges))
           (Star (Group 8 (Cat (Lit CHR ''.'') (Plus (Ranges alnumDashRanges))))))))) (CHR ''+'' # q) c
     = ([], c8(7 := q, 6 := CHR ''+'' # q)) # rest6"
    by auto
  from Cat_first [OF g6 Eol_match] obtain rest where
    "rmatch (Cat (Group 6 (Cat (Lit CHR ''+'') (Group 7 (Cat (Plus (Ranges alnumDashRanges))
           (Star (Group 8 (Cat (Lit CHR ''.'') (Plus (Ranges alnumDashRanges))))))))) Eol) (CHR ''+'' # q) c
     = ([], c8(7 := q, 6 := CHR ''+'' # q)) # rest"
    by blast
  moreover have "rmatch (Cat metadataLine Eol) (CHR ''+'' # q) c
     = rmatch (Cat (Group 6 (Cat (Lit CHR ''+'') (Group 7 (Cat (Plus (Ranges alnumDashRanges))
           (Star (Group 8 (Cat (Lit CHR ''.'') (Plus (Ranges alnumDashRanges))))))))) Eol) (CHR ''+'' # q) c"
    unfolding metadataLine_def alnumDash_def by (intro QuestLazy_Cat Eol_fail) simp
  ultimately have r: "rmatch (Cat metadataLine Eol) (CHR ''+'' # q) c
     = ([], c8(7 := q, 6 := CHR ''+'' # q)) # rest"
    by simp
  then have "([], c8(7 := q, 6 := CHR ''+'' # q)) \<in> set (rmatch (Cat metadataLine Eol) (CHR ''+'' # q) c)"
    by simp
  from rmatch_frame [OF this]
  have "\<forall>n. n \<notin> {6, 7, 8} \<longrightarrow> (c8(7 := q, 6 := CHR ''+'' # q)) n = c n"
    by (simp add: metadataLine_def alnumDash_def)
  with r False show ?thesis by simp
qed

lemma FindStringSubmatch_Some:
  assumes "FindStringSubmatch re s = Some m"
  shows "\<exists>s' c rest. rmatch re s (\<lambda>_. []) = (s', c) # rest \<and> (\<forall>n. n \<noteq> 0 \<longrightarrow> m n = c n)"
  using assms by (auto simp add: FindStringSubmatch_def split: list.splits)

lemma NewVersion_shape:
  assumes "NewVersion s = Inr v"
  shows "\<exists>pfx dash segs. (pfx = [] \<or> pfx = ''v'') \<and> (dash = [] \<or> dash = ''-'')
            \<and> isTokenList digitRanges segs
            \<and> map (\<lambda>t. ParseInt t 32) (Split segs)
                = map Some (take (nat (si v)) (segments v))
            \<and> nat (si v) = length (Split segs)
            \<and> segments v = take (nat (si v)) (segments v) @ replicate (3 - nat (si v)) 0
            \<and> (pre v = [] \<or> isTokenList alnumDashRanges (pre v))
            \<and> (metadata v = [] \<or> isTokenList alnumDashRanges (metadata v))
            \<and> s = pfx @ segs @ (if pre v = [] then [] else dash @ pre v)
                   @ (if metadata v = [] then [] else CHR ''+'' # metadata v)"
proof -
  from NewVersion_Inr [OF assms] obtain m comps where
    m: "FindStringSubmatch versionRegexp s = Some m"
    and p: "map (\<lambda>t. ParseInt t 32) (Split (m 1)) = map Some comps"
    and v: "v = \<lparr>metadata = m 7, pre = m 4,
                   segments = comps @ replicate (3 - length comps) 0,
                   si = int (length comps)\<rparr>"
    by blast
  from FindStringSubmatch_Some [OF m] obtain s' c rest where
    r: "rmatch versionRegexp s (\<lambda>_. []) = (s', c) # rest"
    and mc: "m 1 = c 1" "m 4 = c 4" "m 7 = c 7"
    by auto
  from r have "(s', c) \<in> set (rmatch versionRegexp s (\<lambda>_. []))" by simp
  from versionRegexp_sound [OF this] obtain pfx dash where
    sh: "pfx = [] \<or> pfx = ''v''" "dash = [] \<or> dash = ''-''"
      "isTokenList digitRanges (m 1)"
      "m 4 = [] \<or> isTokenList alnumDashRanges (m 4)"
      "m 7 = [] \<or> isTokenList alnumDashRanges (m 7)"
      "s = pfx @ m 1 @ (if m 4 = [] then [] else dash @ m 4)
                   @ (if m 7 = [] then [] else CHR ''+'' # m 7)"
    unfolding mc by blast
  from p have l: "length (Split (m 1)) = length comps"
    using length_map by metis
  have "map (\<lambda>t. ParseInt t 32) (Split (m 1)) = map Some (take (nat (si v)) (segments v))"
    using p v by simp
  moreover have "nat (si v) = length (Split (m 1))" using l v by simp
  moreover have "segments v = take (nat (si v)) (segments v) @ replicate (3 - nat (si v)) 0"
    using v by simp
  moreover have "pre v = m 4" "metadata v = m 7" using v by simp_all
  ultimately show ?thesis using sh by metis
qed

subsection \<open>The accepted grammar\<close>

text \<open>
  Claim C3 requires a literal \<^verbatim>\<open>-\<close> before the prerelease. The expression has
  \<^verbatim>\<open>-?\<close> there, so the dash is optional: \<^verbatim>\<open>1.2.3beta\<close> is accepted, with
  prerelease \<^verbatim>\<open>beta\<close>.
\<close>

theorem NewVersion_dashless_prerelease:
  "NewVersion ''1.2.3beta''
     = Inr \<lparr>metadata = [], pre = ''beta'', segments = [1, 2, 3], si = 3\<rparr>"
  by code_simp

text \<open>
  Claim C3, amended. Whenever parsing succeeds the input is an optional \<^verbatim>\<open>v\<close>, a
  dot-separated list of digit runs, then, if the stored prerelease is not empty, an
  optional \<^verbatim>\<open>-\<close> and the prerelease (a dot-separated list of alphanumeric or hyphen
  tokens), then, if the stored metadata is not empty, a \<^verbatim>\<open>+\<close> and the metadata (such
  a list too). \<^verbatim>\<open>1.2.3beta\<close> and \<^verbatim>\<open>1.2.3-beta\<close> both have prerelease
  \<^verbatim>\<open>beta\<close>.
\<close>

theorem NewVersion_accepts_optional_dash:
  "(NewVersion s = Inr v \<longrightarrow>
      (\<exists>pfx dash segs. (pfx = [] \<or> pfx = ''v'') \<and> (dash = [] \<or> dash = ''-'')
            \<and> isTokenList digitRanges segs
            \<and> (pre v = [] \<or> isTokenList alnumDashRanges (pre v))
            \<and> (metadata v = [] \<or> isTokenList alnumDashRanges (metadata v))
            \<and> s = pfx @ segs @ (if pre v = [] then [] else dash @ pre v)
                   @ (if metadata v = [] then [] else CHR ''+'' # metadata v)))
   \<and> map_sum id Prerelease (NewVersion ''1.2.3beta'') = Inr ''beta''
   \<and> map_sum id Prerelease (NewVersion ''1.2.3-beta'') = Inr ''beta''"
proof -
  have e1: "map_sum id Prerelease (NewVersion ''1.2.3beta'') = Inr ''beta''" by code_simp
  have e2: "map_sum id Prerelease (NewVersion ''1.2.3-beta'') = Inr ''beta''" by code_simp
  have gen: "\<exists>pfx dash segs. (pfx = [] \<or> pfx = ''v'') \<and> (dash = [] \<or> dash = ''-'')
            \<and> isTokenList digitRanges segs
            \<and> (pre v = [] \<or> isTokenList alnumDashRanges (pre v))
            \<and> (metadata v = [] \<or> isTokenList alnumDashRanges (metadata v))
            \<and> s = pfx @ segs @ (if pre v = [] then [] else dash @ pre v)
                   @ (if metadata v = [] then [] else CHR ''+'' # metadata v)"
    if h: "NewVersion s = Inr v"
    using NewVersion_shape [OF h] by blast
  from e1 e2 gen show ?thesis by blast
qed

theorem NewVersion_accepts_optional_dash_witness:
  "NewVersion ''v1.2rc.1+x''
     = Inr \<lparr>metadata = ''x'', pre = ''rc.1'', segments = [1, 2, 0], si = 2\<rparr>
   \<and> (\<exists>pfx dash segs. (pfx = [] \<or> pfx = ''v'') \<and> (dash = [] \<or> dash = ''-'')
            \<and> isTokenList digitRanges segs
            \<and> ''v1.2rc.1+x'' = pfx @ segs @ dash @ ''rc.1'' @ ''+x'')"
proof -
  have h: "NewVersion ''v1.2rc.1+x''
     = Inr \<lparr>metadata = ''x'', pre = ''rc.1'', segments = [1, 2, 0], si = 2\<rparr>"
    by code_simp
  show ?thesis
    using h NewVersion_accepts_optional_dash
              [of "''v1.2rc.1+x''"
                  "\<lparr>metadata = ''x'', pre = ''rc.1'', segments = [1, 2, 0], si = 2\<rparr>"]
    by simp blast
qed

subsection \<open>The first match on a canonical string\<close>

lemma prereleaseLine_first:
  assumes "p = [] \<or> isTokenList alnumDashRanges p" "u = [] \<or> hd u = CHR ''+''"
  shows "\<exists>c1 rest. rmatch prereleaseLine ((if p = [] then [] else CHR ''-'' # p) @ u) c
                     = (u, c1) # rest
                   \<and> c1 4 = (if p = [] then c 4 else p)
                   \<and> (\<forall>n. n \<notin> {3, 4, 5} \<longrightarrow> c1 n = c n)"
proof (cases "p = []")
  case True
  have "u = [] \<or> \<not> inRanges alnumDashRanges (hd u)"
    using assms(2) plus_not_alnumDash by auto
  from prereleaseLine_skip [OF this, of c] True show ?thesis by simp
next
  case False
  with assms have tl: "isTokenList alnumDashRanges p" by simp
  from tokenList_Split [OF tl] have t: "Split p \<noteq> []"
    "list_all (isToken alnumDashRanges) (Split p)" "Join (Split p) = p" by simp_all
  have b: "u = [] \<or> (hd u \<noteq> CHR ''.'' \<and> \<not> inRanges alnumDashRanges (hd u))"
    using assms(2) plus_not_alnumDash by auto
  from tokenList_first [OF t(1,2) no_dot_alnumDash b, of 5 c] obtain c5 rest5 where
    "rmatch (Cat (Plus (Ranges alnumDashRanges))
           (Star (Group 5 (Cat (Lit CHR ''.'') (Plus (Ranges alnumDashRanges)))))) (p @ u) c
     = (u, c5) # rest5"
    unfolding t(3) by auto
  from Group_first [OF this, of 4] obtain rest4 where
    g4: "rmatch (Group 4 (Cat (Plus (Ranges alnumDashRanges))
           (Star (Group 5 (Cat (Lit CHR ''.'') (Plus (Ranges alnumDashRanges))))))) (p @ u) c
     = (u, c5(4 := p)) # rest4"
    by auto
  have "rmatch (Lit CHR ''-'') (CHR ''-'' # p @ u) c = [(p @ u, c)]"
    by (rule Lit_match)
  from Quest_first [OF this] obtain restq where
    q: "rmatch (Quest (Lit CHR ''-'')) (CHR ''-'' # p @ u) c = (p @ u, c) # restq"
    by blast
  from Cat_first [OF q g4] obtain rest3 where
    "rmatch (Cat (Quest (Lit CHR ''-'')) (Group 4 (Cat (Plus (Ranges alnumDashRanges))
           (Star (Group 5 (Cat (Lit CHR ''.'') (Plus (Ranges alnumDashRanges)))))))) ((CHR ''-'' # p) @ u) c
     = (u, c5(4 := p)) # rest3"
    by auto
  from Group_first [OF this, of 3] obtain rest2 where
    "rmatch (Group 3 (Cat (Quest (Lit CHR ''-'')) (Group 4 (Cat (Plus (Ranges alnumDashRanges))
           (Star (Group 5 (Cat (Lit CHR ''.'') (Plus (Ranges alnumDashRanges))))))))) ((CHR ''-'' # p) @ u) c
     = (u, c5(4 := p, 3 := CHR ''-'' # p)) # rest2"
    by auto
  from Quest_first [OF this] obtain rest where
    r: "rmatch prereleaseLine ((CHR ''-'' # p) @ u) c = (u, c5(4 := p, 3 := CHR ''-'' # p)) # rest"
    unfolding prereleaseLine_def alnumDash_def by blast
  then have "(u, c5(4 := p, 3 := CHR ''-'' # p)) \<in> set (rmatch prereleaseLine ((CHR ''-'' # p) @ u) c)"
    by simp
  from rmatch_frame [OF this]
  have "\<forall>n. n \<notin> {3, 4, 5} \<longrightarrow> (c5(4 := p, 3 := CHR ''-'' # p)) n = c n"
    by (simp add: prereleaseLine_def alnumDash_def)
  with r False show ?thesis by simp
qed

lemma tail_first:
  assumes "p = [] \<or> isTokenList alnumDashRanges p" "q = [] \<or> isTokenList alnumDashRanges q"
  shows "\<exists>c2 rest. rmatch (Cat prereleaseLine (Cat metadataLine Eol))
                      ((if p = [] then [] else CHR ''-'' # p) @ (if q = [] then [] else CHR ''+'' # q)) c
                     = ([], c2) # rest
                   \<and> c2 1 = c 1
                   \<and> c2 4 = (if p = [] then c 4 else p)
                   \<and> c2 7 = (if q = [] then c 7 else q)"
proof -
  define u where "u = (if q = [] then [] else CHR ''+'' # q)"
  have b: "u = [] \<or> hd u = CHR ''+''" by (simp add: u_def)
  from prereleaseLine_first [OF assms(1) b, of c] obtain c1 rest1 where
    a: "rmatch prereleaseLine ((if p = [] then [] else CHR ''-'' # p) @ u) c = (u, c1) # rest1"
    and a4: "c1 4 = (if p = [] then c 4 else p)"
    and fr1: "\<forall>n. n \<notin> {3, 4, 5} \<longrightarrow> c1 n = c n"
    by blast
  from metadata_Eol_first [OF assms(2), of c1] obtain c2 rest2 where
    m: "rmatch (Cat metadataLine Eol) u c1 = ([], c2) # rest2"
    and m7: "c2 7 = (if q = [] then c1 7 else q)"
    and fr2: "\<forall>n. n \<notin> {6, 7, 8} \<longrightarrow> c2 n = c1 n"
    unfolding u_def by blast
  from Cat_first [OF a m] obtain rest where
    "rmatch (Cat prereleaseLine (Cat metadataLine Eol))
       ((if p = [] then [] else CHR ''-'' # p) @ u) c = ([], c2) # rest"
    by blast
  moreover have "c2 1 = c 1" using fr1 fr2 by simp
  moreover have "c2 4 = (if p = [] then c 4 else p)" using a4 fr2 by simp
  moreover have "c2 7 = (if q = [] then c 7 else q)" using m7 fr1 by simp
  ultimately show ?thesis unfolding u_def by blast
qed

lemma Group_Cat_unfold:
  "rmatch a s c = (u1, c1) # rest1 \<Longrightarrow>
   \<exists>rest. rmatch (Cat (Group n (Cat a b)) t) s c
          = concat (map (\<lambda>(s', c'). rmatch t s' (c'(n := take (length s - length s') s)))
                        (rmatch b u1 c1)) @ rest"
  by (simp add: rmatch.simps(3,9) map_concat concat_map_concat_map case_prod_unfold comp_def)

lemma digit_not_v: "isToken digitRanges w \<Longrightarrow> hd w \<noteq> CHR ''v''"
  by (cases w) (auto simp add: isToken_def digitRanges_def)

lemma versionRegexp_first:
  assumes "toks \<noteq> []" "list_all (isToken digitRanges) toks"
    "p = [] \<or> isTokenList alnumDashRanges p" "q = [] \<or> isTokenList alnumDashRanges q"
  shows "\<exists>c3 rest. rmatch versionRegexp
                      (Join toks @ (if p = [] then [] else CHR ''-'' # p)
                                 @ (if q = [] then [] else CHR ''+'' # q)) (\<lambda>_. [])
                     = ([], c3) # rest
                   \<and> c3 1 = Join toks \<and> c3 4 = p \<and> c3 7 = q"
proof -
  define u where "u = (if p = [] then [] else CHR ''-'' # p) @ (if q = [] then [] else CHR ''+'' # q)"
  define s where "s = Join toks @ u"
  define tail where "tail = Cat prereleaseLine (Cat metadataLine Eol)"
  define f where "f = (\<lambda>(s', c'). rmatch tail s' (c'(1 := take (length s - length s') s)))"
  from assms(1) obtain w ws where t: "toks = w # ws" by (cases toks) auto
  from assms(2) t have w: "isToken digitRanges w" and ws: "list_all (isToken digitRanges) ws"
    by simp_all
  define u1 where "u1 = concat (map ((#) CHR ''.'') ws) @ u"
  have s1: "s = w @ u1" unfolding s_def u1_def t by (simp add: Join_Cons)
  have ub: "u = [] \<or> (hd u \<noteq> CHR ''.'' \<and> \<not> inRanges digitRanges (hd u))"
    unfolding u_def by (auto simp add: digitRanges_def)
  have u1b: "u1 = [] \<or> \<not> inRanges digitRanges (hd u1)"
    using ub no_dot_digit unfolding u1_def by (cases ws) auto
  have "s = [] \<or> hd s \<noteq> CHR ''v''"
    using digit_not_v [OF w] w unfolding s1 by (simp add: isToken_def)
  then have v: "rmatch (Quest (Lit CHR ''v'')) s c = [(s, c)]" for c
    by (intro Quest_skip Lit_fail)
  have ff: "f (x, c) = []" if "x \<noteq> []" "hd x = CHR ''.''" for x c
    unfolding f_def tail_def using that no_dot_alnumDash
    by (simp add: tail_fail)
  from Plus_first [OF w u1b, of "\<lambda>_. []"] obtain rest1 where
    d: "rmatch (Plus (Ranges digitRanges)) s (\<lambda>_. []) = (u1, \<lambda>_. []) # rest1"
    unfolding s1 by blast
  from Group_Cat_unfold [OF d, of 1 "StarLazy (Group 2 (Cat (Lit CHR ''.'') (Plus (Ranges digitRanges))))" tail]
  obtain rest2 where
    g: "rmatch (Cat (Group 1 (Cat (Plus (Ranges digitRanges))
              (StarLazy (Group 2 (Cat (Lit CHR ''.'') (Plus (Ranges digitRanges))))))) tail) s (\<lambda>_. [])
        = concat (map f (rmatch (StarLazy (Group 2 (Cat (Lit CHR ''.'') (Plus (Ranges digitRanges)))))
                                u1 (\<lambda>_. []))) @ rest2"
    unfolding f_def by blast
  from StarLazy_first [where f = f and k = 2 and c = "\<lambda>_. []", OF ws no_dot_digit ub ff]
  obtain c1 rest3 where
    l: "concat (map f (rmatch (StarLazy (Group 2 (Cat (Lit CHR ''.'') (Plus (Ranges digitRanges)))))
                                u1 (\<lambda>_. []))) = f (u, c1) @ rest3"
    and fr: "\<forall>n. n \<noteq> 2 \<longrightarrow> c1 n = []"
    unfolding u1_def by blast
  have tk: "take (length s - length u) s = Join toks" unfolding s_def by simp
  from tail_first [OF assms(3,4), of "c1(1 := Join toks)"] obtain c3 rest4 where
    tf: "f (u, c1) = ([], c3) # rest4"
    and k: "c3 1 = Join toks" "c3 4 = p" "c3 7 = q"
    unfolding f_def tail_def u_def [symmetric] using fr by (auto simp add: tk)
  have "rmatch versionRegexp s (\<lambda>_. [])
        = rmatch (Cat (Cat (Quest (Lit CHR ''v'')) (Group 1 (Cat (Plus (Ranges digitRanges))
              (StarLazy (Group 2 (Cat (Lit CHR ''.'') (Plus (Ranges digitRanges)))))))) tail) s (\<lambda>_. [])"
    unfolding versionRegexp_assoc tail_def segmentsLine_def digit_def ..
  also have "\<dots> = rmatch (Cat (Quest (Lit CHR ''v'')) (Cat (Group 1 (Cat (Plus (Ranges digitRanges))
              (StarLazy (Group 2 (Cat (Lit CHR ''.'') (Plus (Ranges digitRanges))))))) tail)) s (\<lambda>_. [])"
    by (rule rmatch_Cat_assoc)
  also have "\<dots> = rmatch (Cat (Group 1 (Cat (Plus (Ranges digitRanges))
              (StarLazy (Group 2 (Cat (Lit CHR ''.'') (Plus (Ranges digitRanges))))))) tail) s (\<lambda>_. [])"
    by (rule Cat_single [OF v])
  also have "\<dots> = ([], c3) # (rest4 @ rest3 @ rest2)"
    unfolding g l tf by simp
  finally show ?thesis using k unfolding s_def u_def by auto
qed

subsection \<open>Formatting and parsing again\<close>

lemma inRanges_digit: "inRanges digitRanges c = isDigit c"
  by (simp add: digitRanges_def isDigit_def)

lemma isToken_digit: "isToken digitRanges t \<longleftrightarrow> t \<noteq> [] \<and> list_all isDigit t"
  by (simp add: isToken_def inRanges_digit list_all_iff)

lemma isDigit_digitChar: "0 \<le> d \<Longrightarrow> d < 10 \<Longrightarrow> isDigit (digitChar d) \<and> digitVal (digitChar d) = d"
  by (simp add: isDigit_def digitChar_def digitVal_def)

lemma digitsOf_props:
  "0 \<le> n \<Longrightarrow>
   digitsOf n \<noteq> [] \<and> list_all isDigit (digitsOf n)
   \<and> foldl (\<lambda>acc c. 10 * acc + digitVal c) 0 (digitsOf n) = n"
proof (induction n rule: digitsOf.induct)
  case (1 n)
  show ?case
  proof (cases "n < 10")
    case True
    with "1.prems" isDigit_digitChar [of n] show ?thesis
      by (subst (1 2 3) digitsOf.simps) simp
  next
    case False
    with "1.prems" have "0 \<le> n div 10" by simp
    from "1.IH" [OF False this] isDigit_digitChar [of "n mod 10"] False show ?thesis
      by (subst (1 2 3) digitsOf.simps) simp
  qed
qed

lemma Itoa_token: "0 \<le> n \<Longrightarrow> isToken digitRanges (Itoa n)"
  using digitsOf_props [of n] by (simp add: isToken_digit Itoa_def)

lemma ParseInt_digits:
  assumes "t \<noteq> []" "list_all isDigit t"
  shows "ParseInt t 32 =
           (if foldl (\<lambda>acc c. 10 * acc + digitVal c) 0 t < 2147483648
            then Some (foldl (\<lambda>acc c. 10 * acc + digitVal c) 0 t) else None)"
proof -
  from assms obtain c cs where t: "t = c # cs" by (cases t) auto
  with assms have "isDigit c" by simp
  then have "c \<noteq> CHR ''-''" "c \<noteq> CHR ''+''" by (auto simp add: isDigit_def)
  with assms t show ?thesis
    by (simp add: ParseInt_def ParseUint_def Let_def)
qed

lemma foldl_digits_nonneg:
  "list_all isDigit t \<Longrightarrow> 0 \<le> a \<Longrightarrow> 0 \<le> foldl (\<lambda>acc c. 10 * acc + digitVal c) a t"
  by (induction t arbitrary: a) (auto simp add: isDigit_def digitVal_def)

lemma ParseInt_token_range:
  assumes "isToken digitRanges t" "ParseInt t 32 = Some x"
  shows "0 \<le> x \<and> x < 2147483648"
proof -
  from assms(1) have t: "t \<noteq> []" "list_all isDigit t" by (simp_all add: isToken_digit)
  from foldl_digits_nonneg [OF t(2), of 0] assms(2) show ?thesis
    unfolding ParseInt_digits [OF t] by (auto split: if_splits)
qed

lemma ParseInt_Itoa: "0 \<le> n \<Longrightarrow> n < 2147483648 \<Longrightarrow> ParseInt (Itoa n) 32 = Some n"
  using digitsOf_props [of n] ParseInt_digits [of "digitsOf n"]
  by (simp add: Itoa_def)

lemma convertLoop_Itoa:
  "\<forall>x \<in> set xs. 0 \<le> x \<and> x < 2147483648 \<Longrightarrow>
   convertLoop (map Itoa xs) acc n = Inr (acc @ xs, n + int (length xs))"
  by (induction xs arbitrary: acc n) (simp_all add: ParseInt_Itoa)

lemma NewVersion_segments_range:
  assumes "NewVersion s = Inr v"
  shows "3 \<le> length (segments v) \<and> (\<forall>x \<in> set (segments v). 0 \<le> x \<and> x < 2147483648)
         \<and> (pre v = [] \<or> isTokenList alnumDashRanges (pre v))
         \<and> (metadata v = [] \<or> isTokenList alnumDashRanges (metadata v))"
proof -
  from NewVersion_Inr [OF assms] obtain m comps where
    m: "FindStringSubmatch versionRegexp s = Some m"
    and p: "map (\<lambda>t. ParseInt t 32) (Split (m 1)) = map Some comps"
    and v: "v = \<lparr>metadata = m 7, pre = m 4,
                   segments = comps @ replicate (3 - length comps) 0,
                   si = int (length comps)\<rparr>"
    by blast
  from FindStringSubmatch_Some [OF m] obtain s' c rest where
    r: "rmatch versionRegexp s (\<lambda>_. []) = (s', c) # rest"
    and mc: "m 1 = c 1" "m 4 = c 4" "m 7 = c 7"
    by auto
  from r have "(s', c) \<in> set (rmatch versionRegexp s (\<lambda>_. []))" by simp
  from versionRegexp_sound [OF this] have
    sh: "isTokenList digitRanges (m 1)"
      "m 4 = [] \<or> isTokenList alnumDashRanges (m 4)"
      "m 7 = [] \<or> isTokenList alnumDashRanges (m 7)"
    unfolding mc by blast+
  have "0 \<le> x \<and> x < 2147483648" if x: "x \<in> set comps" for x
  proof -
    from x obtain i where i: "i < length comps" "comps ! i = x"
      by (auto simp add: in_set_conv_nth)
    from p have l: "length (Split (m 1)) = length comps" using length_map by metis
    from p i l have "ParseInt (Split (m 1) ! i) 32 = Some x"
      by (metis nth_map)
    moreover have "isToken digitRanges (Split (m 1) ! i)"
      using sh(1) i l by (simp add: isTokenList_def list_all_length)
    ultimately show ?thesis by (rule ParseInt_token_range [rotated])
  qed
  then have "\<forall>x \<in> set (segments v). 0 \<le> x \<and> x < 2147483648"
    using v by auto
  moreover have "3 \<le> length (segments v)" using v by simp
  ultimately show ?thesis using sh v by simp
qed

lemma NewVersion_String:
  assumes "3 \<le> length (segments v)" "\<forall>x \<in> set (segments v). 0 \<le> x \<and> x < 2147483648"
    "pre v = [] \<or> isTokenList alnumDashRanges (pre v)"
    "metadata v = [] \<or> isTokenList alnumDashRanges (metadata v)"
  shows "NewVersion (String v)
         = Inr \<lparr>metadata = metadata v, pre = pre v, segments = segments v,
                si = int (length (segments v))\<rparr>"
proof -
  define toks where "toks = map Itoa (segments v)"
  have t1: "toks \<noteq> []" using assms(1) unfolding toks_def by auto
  have t2: "list_all (isToken digitRanges) toks"
    using assms(2) unfolding toks_def by (simp add: list_all_iff Itoa_token)
  have str: "String v = Join toks @ (if pre v = [] then [] else CHR ''-'' # pre v)
                                  @ (if metadata v = [] then [] else CHR ''+'' # metadata v)"
    unfolding String_def toks_def by simp
  from versionRegexp_first [OF t1 t2 assms(3,4)] obtain c3 rest where
    r: "rmatch versionRegexp (String v) (\<lambda>_. []) = ([], c3) # rest"
    and k: "c3 1 = Join toks" "c3 4 = pre v" "c3 7 = metadata v"
    unfolding str by blast
  have "\<forall>t \<in> set toks. CHR ''.'' \<notin> set t"
    using t2 isToken_no_dot no_dot_digit by (auto simp add: list_all_iff)
  from Split_Join [OF t1 this] have sp: "Split (Join toks) = toks" .
  have cl: "convertLoop toks [] 0 = Inr (segments v, int (length (segments v)))"
    unfolding toks_def using convertLoop_Itoa [OF assms(2), of "[]" 0] by simp
  have pl: "padLoop (segments v) (length (segments v)) = segments v"
    using assms(1) by (simp add: padLoop_replicate)
  show ?thesis
    using r k sp cl pl
    by (simp add: NewVersion_def FindStringSubmatch_def)
qed

text \<open>
  Claim C8. For every input on which parsing succeeds, parsing the formatted Version
  succeeds too, and the Version it gives compares as 0 with the original (it has the same
  segments, prerelease and metadata).
\<close>

theorem String_round_trip:
  "(NewVersion s = Inr v \<longrightarrow>
      (\<exists>v'. NewVersion (String v) = Inr v' \<and> Compare v v' = 0 \<and> Equal v v'
            \<and> segments v' = segments v \<and> pre v' = pre v \<and> metadata v' = metadata v))
   \<and> map_sum id String (NewVersion ''v01.2beta+b.7'') = Inr ''1.2.0-beta+b.7''
   \<and> NewVersion ''1.2.0-beta+b.7''
       = Inr \<lparr>metadata = ''b.7'', pre = ''beta'', segments = [1, 2, 0], si = 3\<rparr>"
proof -
  have e1: "map_sum id String (NewVersion ''v01.2beta+b.7'') = Inr ''1.2.0-beta+b.7''"
    by code_simp
  have e2: "NewVersion ''1.2.0-beta+b.7''
       = Inr \<lparr>metadata = ''b.7'', pre = ''beta'', segments = [1, 2, 0], si = 3\<rparr>"
    by code_simp
  have gen: "\<exists>v'. NewVersion (String v) = Inr v' \<and> Compare v v' = 0 \<and> Equal v v'
            \<and> segments v' = segments v \<and> pre v' = pre v \<and> metadata v' = metadata v"
    if h: "NewVersion s = Inr v"
  proof -
    define v' where "v' = \<lparr>metadata = metadata v, pre = pre v, segments = segments v,
                si = int (length (segments v))\<rparr>"
    from NewVersion_segments_range [OF h] have "NewVersion (String v) = Inr v'"
      unfolding v'_def by (intro NewVersion_String) simp_all
    moreover have "String v = String v'" by (simp add: String_def v'_def)
    then have "Compare v v' = 0" "Equal v v'" by (simp_all add: Compare_def Equal_def)
    moreover have "segments v' = segments v" "pre v' = pre v" "metadata v' = metadata v"
      by (simp_all add: v'_def)
    ultimately show ?thesis by blast
  qed
  from e1 e2 gen show ?thesis by blast
qed

theorem String_round_trip_witness:
  "NewVersion ''v01.2beta+b.7''
     = Inr \<lparr>metadata = ''b.7'', pre = ''beta'', segments = [1, 2, 0], si = 2\<rparr>
   \<and> (\<exists>v'. NewVersion (String \<lparr>metadata = ''b.7'', pre = ''beta'', segments = [1, 2, 0], si = 2\<rparr>)
              = Inr v'
            \<and> Compare \<lparr>metadata = ''b.7'', pre = ''beta'', segments = [1, 2, 0], si = 2\<rparr> v' = 0)"
proof -
  have h: "NewVersion ''v01.2beta+b.7''
     = Inr \<lparr>metadata = ''b.7'', pre = ''beta'', segments = [1, 2, 0], si = 2\<rparr>"
    by code_simp
  show ?thesis
    using h String_round_trip
              [of "''v01.2beta+b.7''"
                  "\<lparr>metadata = ''b.7'', pre = ''beta'', segments = [1, 2, 0], si = 2\<rparr>"]
    by blast
qed

subsection \<open>Compare as an order\<close>

lemma segmentLoop_refl: "segmentLoop xs xs i = 0"
proof (induction "length xs - i" arbitrary: i)
  case 0
  then show ?case by (subst segmentLoop_step) simp
next
  case (Suc n)
  then have "segmentLoop xs xs (Suc i) = 0" by simp
  with Suc.hyps(2) show ?case by (subst segmentLoop_step) simp
qed

lemma allZero_iff: "allZero zs \<longleftrightarrow> (\<forall>z \<in> set zs. z = 0)"
  by (induction zs) auto

lemma allZero_drop:
  "allZero (drop i ys) \<longleftrightarrow> (\<forall>k. i \<le> k \<and> k < length ys \<longrightarrow> ys ! k = 0)"
proof -
  have "set (drop i ys) = {ys ! k | k. i \<le> k \<and> k < length ys}"
  proof (intro set_eqI iffI)
    fix z assume "z \<in> set (drop i ys)"
    then obtain m where "m < length (drop i ys)" "drop i ys ! m = z"
      by (auto simp add: in_set_conv_nth)
    then have "i \<le> i + m \<and> i + m < length ys \<and> ys ! (i + m) = z" by auto
    then show "z \<in> {ys ! k | k. i \<le> k \<and> k < length ys}" by blast
  next
    fix z assume "z \<in> {ys ! k | k. i \<le> k \<and> k < length ys}"
    then obtain k where k: "i \<le> k" "k < length ys" "z = ys ! k" by blast
    then have "k - i < length (drop i ys)" "drop i ys ! (k - i) = z" by auto
    then show "z \<in> set (drop i ys)" by (metis nth_mem)
  qed
  then show ?thesis unfolding allZero_iff by auto
qed

text \<open>The segment loop finds the first index where the zero-extended sequences differ.\<close>

lemma segmentLoop_less:
  assumes "\<forall>x \<in> set xs. 0 \<le> x" "\<forall>y \<in> set ys. 0 \<le> y"
  shows "segmentLoop xs ys i = -1 \<longleftrightarrow>
         (\<exists>j\<ge>i. (\<forall>k. i \<le> k \<and> k < j \<longrightarrow>
                     (if k < length xs then xs ! k else 0) = (if k < length ys then ys ! k else 0))
               \<and> (if j < length xs then xs ! j else 0) < (if j < length ys then ys ! j else 0))"
  (is "_ \<longleftrightarrow> ?R i")
proof (induction "max (length xs) (length ys) - i" arbitrary: i)
  case 0
  then have ge: "length xs \<le> i" "length ys \<le> i" by auto
  then have "\<not> ?R i" by auto
  moreover have "segmentLoop xs ys i = 0"
    using ge by (subst segmentLoop_step) simp
  ultimately show ?case by simp
next
  case (Suc n)
  then have lt: "i < max (length xs) (length ys)" by simp
  from Suc have ih: "segmentLoop xs ys (Suc i) = -1 \<longleftrightarrow> ?R (Suc i)" by simp
  consider (a) "length xs \<le> i" | (b) "i < length xs" "length ys \<le> i"
    | (c) "i < length xs" "i < length ys" by linarith
  then show ?case
  proof cases
    case a
    with lt have iy: "i < length ys" by simp
    have l: "segmentLoop xs ys i = (if \<not> allZero (drop i ys) then -1 else 0)"
      using a lt by (subst segmentLoop_step) simp
    have "?R i \<longleftrightarrow> \<not> allZero (drop i ys)"
    proof
      assume "?R i"
      then obtain j where "i \<le> j" "0 < (if j < length ys then ys ! j else 0)"
        using a by auto
      then show "\<not> allZero (drop i ys)"
        unfolding allZero_drop by (auto split: if_splits)
    next
      assume "\<not> allZero (drop i ys)"
      then have ex: "\<exists>k. i \<le> k \<and> k < length ys \<and> ys ! k \<noteq> 0"
        unfolding allZero_drop by auto
      define j where "j = (LEAST k. i \<le> k \<and> k < length ys \<and> ys ! k \<noteq> 0)"
      from ex have j: "i \<le> j \<and> j < length ys \<and> ys ! j \<noteq> 0"
        unfolding j_def by (rule LeastI_ex)
      have m: "\<not> (i \<le> k \<and> k < length ys \<and> ys ! k \<noteq> 0)" if "k < j" for k
        using that not_less_Least unfolding j_def by blast
      from j assms(2) have "0 < ys ! j"
        by (metis nth_mem order.order_iff_strict)
      moreover have "\<forall>k. i \<le> k \<and> k < j \<longrightarrow>
          (if k < length xs then xs ! k else 0) = (if k < length ys then ys ! k else 0)"
        using m a j by auto
      ultimately show "?R i" using j a by (intro exI [of _ j]) auto
    qed
    with l show ?thesis by simp
  next
    case b
    have l: "segmentLoop xs ys i = (if \<not> allZero (drop i xs) then 1 else 0)"
      using b lt by (subst segmentLoop_step) simp
    have "\<not> ?R i"
    proof
      assume "?R i"
      then obtain j where "i \<le> j" "(if j < length xs then xs ! j else 0) < 0"
        using b by auto
      with assms(1) show False
        by (auto split: if_splits simp add: not_less [symmetric])
    qed
    with l show ?thesis by simp
  next
    case c
    show ?thesis
    proof (cases "xs ! i = ys ! i")
      case True
      then have l: "segmentLoop xs ys i = segmentLoop xs ys (Suc i)"
        using c lt by (subst segmentLoop_step) simp
      have "?R i \<longleftrightarrow> ?R (Suc i)"
      proof
        assume "?R i"
        then obtain j where j: "i \<le> j"
          "\<forall>k. i \<le> k \<and> k < j \<longrightarrow>
             (if k < length xs then xs ! k else 0) = (if k < length ys then ys ! k else 0)"
          "(if j < length xs then xs ! j else 0) < (if j < length ys then ys ! j else 0)"
          by blast
        with True c have "j \<noteq> i" by auto
        with j(1) have "Suc i \<le> j" by simp
        with j(2,3) show "?R (Suc i)" by (intro exI [of _ j]) auto
      next
        assume "?R (Suc i)"
        then obtain j where j: "Suc i \<le> j"
          "\<forall>k. Suc i \<le> k \<and> k < j \<longrightarrow>
             (if k < length xs then xs ! k else 0) = (if k < length ys then ys ! k else 0)"
          "(if j < length xs then xs ! j else 0) < (if j < length ys then ys ! j else 0)"
          by blast
        have "\<forall>k. i \<le> k \<and> k < j \<longrightarrow>
             (if k < length xs then xs ! k else 0) = (if k < length ys then ys ! k else 0)"
        proof (intro allI impI)
          fix k assume k: "i \<le> k \<and> k < j"
          show "(if k < length xs then xs ! k else 0) = (if k < length ys then ys ! k else 0)"
          proof (cases "k = i")
            case True
            with \<open>xs ! i = ys ! i\<close> c show ?thesis by simp
          next
            case False
            with k have "Suc i \<le> k \<and> k < j" by simp
            with j(2) show ?thesis by blast
          qed
        qed
        with j(1,3) show "?R i" by (intro exI [of _ j]) auto
      qed
      with l ih show ?thesis by simp
    next
      case False
      then have l: "segmentLoop xs ys i = (if xs ! i < ys ! i then -1 else 1)"
        using c lt by (subst segmentLoop_step) simp
      have "?R i \<longleftrightarrow> xs ! i < ys ! i"
      proof
        assume "?R i"
        then obtain j where j: "i \<le> j"
          "\<forall>k. i \<le> k \<and> k < j \<longrightarrow>
             (if k < length xs then xs ! k else 0) = (if k < length ys then ys ! k else 0)"
          "(if j < length xs then xs ! j else 0) < (if j < length ys then ys ! j else 0)"
          by blast
        have "j = i"
        proof (rule ccontr)
          assume "j \<noteq> i"
          with j(1) have "i \<le> i \<and> i < j" by simp
          with j(2) have "(if i < length xs then xs ! i else 0) = (if i < length ys then ys ! i else 0)"
            by blast
          with c False show False by simp
        qed
        with j(3) c show "xs ! i < ys ! i" by simp
      next
        assume "xs ! i < ys ! i"
        with c show "?R i" by (intro exI [of _ i]) simp
      qed
      with l show ?thesis by simp
    qed
  qed
qed

lemma segmentLoop_trans:
  assumes nn: "\<forall>x \<in> set xs. 0 \<le> x" "\<forall>y \<in> set ys. 0 \<le> y" "\<forall>z \<in> set zs. 0 \<le> z"
    and le: "segmentLoop xs ys 0 \<le> 0" "segmentLoop ys zs 0 \<le> 0"
  shows "segmentLoop xs zs 0 \<le> 0"
proof (rule ccontr)
  define N where "N = (\<lambda>us k. if k < length us then us ! k else (0::int))"
  have less: "segmentLoop us ws 0 = -1 \<longleftrightarrow>
                (\<exists>j. (\<forall>k<j. N us k = N ws k) \<and> N us j < N ws j)"
    if "\<forall>x \<in> set us. 0 \<le> x" "\<forall>x \<in> set ws. 0 \<le> x" for us ws
    using segmentLoop_less [OF that, of 0] unfolding N_def by simp
  have nyx: "\<not> (\<exists>j. (\<forall>k<j. N ys k = N xs k) \<and> N ys j < N xs j)"
    using le(1) segmentLoop_antisym [of xs ys 0] less [OF nn(2) nn(1)] by auto
  have nzy: "\<not> (\<exists>j. (\<forall>k<j. N zs k = N ys k) \<and> N zs j < N ys j)"
    using le(2) segmentLoop_antisym [of ys zs 0] less [OF nn(3) nn(2)] by auto
  assume "\<not> segmentLoop xs zs 0 \<le> 0"
  then have "segmentLoop xs zs 0 = 1"
    using segmentLoop_range [of xs zs 0] by auto
  then have "segmentLoop zs xs 0 = -1"
    using segmentLoop_antisym [of zs xs 0] by simp
  then obtain j where j: "\<forall>k<j. N zs k = N xs k" "N zs j < N xs j"
    using less [OF nn(3) nn(1)] by blast
  define P where "P = (\<lambda>k. N ys k \<noteq> N xs k \<or> N ys k \<noteq> N zs k)"
  define m where "m = (LEAST k. P k)"
  have "P j" using j(2) unfolding P_def by auto
  then have Pm: "P m" and mj: "m \<le> j"
    unfolding m_def by (auto intro: LeastI Least_le)
  have before: "N ys k = N xs k \<and> N ys k = N zs k" if "k < m" for k
    using that not_less_Least [of k P] unfolding m_def P_def by auto
  show False
  proof (cases "N ys m < N xs m")
    case True
    moreover have "\<forall>k<m. N ys k = N xs k" using before by blast
    ultimately show False using nyx by blast
  next
    case False
    have "N zs m < N ys m"
    proof (cases "m = j")
      case True
      with False j(2) show ?thesis by simp
    next
      case ne: False
      with mj have "m < j" by simp
      with j(1) have "N zs m = N xs m" by simp
      with Pm False show ?thesis unfolding P_def by auto
    qed
    moreover have "\<forall>k<m. N zs k = N ys k" using before by metis
    ultimately show False using nzy by blast
  qed
qed

lemma strGreater_trans: "strGreater a b \<Longrightarrow> strGreater b c \<Longrightarrow> strGreater a c"
proof -
  assume h: "strGreater a b" "strGreater b c"
  have t: "trans {(x, y). (of_char x :: int) < of_char y}"
    by (auto simp add: trans_def)
  from h have "(c, b) \<in> lexord {(x, y). (of_char x :: int) < of_char y}"
    "(b, a) \<in> lexord {(x, y). (of_char x :: int) < of_char y}"
    by (simp_all add: strGreater_lexord)
  from lexord_trans [OF this t] show ?thesis by (simp add: strGreater_lexord)
qed

lemma comparePart_zero: "comparePart a b = 0 \<longleftrightarrow> a = b"
  by (auto simp add: comparePart_def split: option.splits)

lemma ParseInt_Nil: "ParseInt [] n = None"
  by (simp add: ParseInt_def)

lemma comparePart_trans:
  assumes "\<not> missingTokenClash x y z" "\<not> missingTokenClash x z y"
    "\<not> missingTokenClash y x z" "\<not> missingTokenClash y z x"
    "\<not> missingTokenClash z x y" "\<not> missingTokenClash z y x"
    and "comparePart x y \<le> 0" "comparePart y z \<le> 0"
  shows "comparePart x z \<le> 0"
proof (cases "x = y \<or> y = z \<or> x = z")
  case True
  with assms(7,8) show ?thesis by (auto simp add: comparePart_zero [THEN iffD2])
next
  case False
  then have d: "x \<noteq> y" "y \<noteq> z" "x \<noteq> z" by auto
  consider (x) "x = []" "y \<noteq> []" "z \<noteq> []" | (y) "y = []" "x \<noteq> []" "z \<noteq> []"
    | (z) "z = []" "x \<noteq> []" "y \<noteq> []" | (n) "x \<noteq> []" "y \<noteq> []" "z \<noteq> []"
    using d by auto
  then show ?thesis
  proof cases
    case x
    with assms(7,8) d have "ParseInt y 64 \<noteq> None" "strGreater z y"
      using strGreater_total [of y z]
      by (auto simp add: comparePart_def split: option.splits if_splits)
    with assms(1) x have "ParseInt z 64 \<noteq> None"
      by (auto simp add: missingTokenClash_def)
    with x show ?thesis by (auto simp add: comparePart_def)
  next
    case y
    with assms(7,8) d have "ParseInt x 64 = None" "ParseInt z 64 \<noteq> None"
      by (auto simp add: comparePart_def split: option.splits if_splits)
    with assms(4) y have "\<not> strGreater x z"
      by (auto simp add: missingTokenClash_def)
    with y d show ?thesis by (auto simp add: comparePart_def)
  next
    case z
    with assms(7,8) d have "ParseInt y 64 = None" "strGreater y x"
      using strGreater_total [of x y]
      by (auto simp add: comparePart_def split: option.splits if_splits)
    with assms(5) z have "ParseInt x 64 = None"
      by (auto simp add: missingTokenClash_def)
    with z d show ?thesis by (auto simp add: comparePart_def)
  next
    case n
    with assms(7,8) d have "strGreater y x" "strGreater z y"
      using strGreater_total [of x y] strGreater_total [of y z]
      by (auto simp add: comparePart_def split: if_splits)
    then have "strGreater z x" by (rule strGreater_trans [rotated])
    then have "\<not> strGreater x z" using strGreater_asym by blast
    with n d show ?thesis by (auto simp add: comparePart_def)
  qed
qed

lemma prereleaseLoop_refl: "prereleaseLoop xs xs i = 0"
proof (induction "length xs - i" arbitrary: i)
  case 0
  then show ?case by (subst prereleaseLoop_step) simp
next
  case (Suc n)
  then have "prereleaseLoop xs xs (Suc i) = 0" by simp
  with Suc.hyps(2) show ?case
    by (subst prereleaseLoop_step) (simp add: comparePart_zero [THEN iffD2])
qed

lemma comparePrereleases_loop:
  "comparePrereleases p q = prereleaseLoop (Split p) (Split q) 0"
  by (simp add: comparePrereleases_def prereleaseLoop_refl)

text \<open>The prerelease loop returns the comparison of the first pair of tokens that differ.\<close>

lemma prereleaseLoop_less:
  "prereleaseLoop xs ys i = -1 \<longleftrightarrow>
     (\<exists>j\<ge>i. (\<forall>k. i \<le> k \<and> k < j \<longrightarrow>
                 (if k < length xs then xs ! k else []) = (if k < length ys then ys ! k else []))
           \<and> comparePart (if j < length xs then xs ! j else [])
                          (if j < length ys then ys ! j else []) = -1)"
  (is "_ \<longleftrightarrow> ?R i")
proof (induction "max (length xs) (length ys) - i" arbitrary: i)
  case 0
  then have ge: "length xs \<le> i" "length ys \<le> i" by auto
  then have "\<not> ?R i" by (auto simp add: comparePart_def)
  moreover have "\<not> i < max (length xs) (length ys)" using ge by simp
  then have "prereleaseLoop xs ys i = 0"
    by (simp only: prereleaseLoop_step [of xs ys i] if_False)
  ultimately show ?case by simp
next
  case (Suc n)
  then have lt: "i < max (length xs) (length ys)" by simp
  from Suc have ih: "prereleaseLoop xs ys (Suc i) = -1 \<longleftrightarrow> ?R (Suc i)" by simp
  define x where "x = (if i < length xs then xs ! i else [])"
  define y where "y = (if i < length ys then ys ! i else [])"
  have l: "prereleaseLoop xs ys i =
             (if comparePart x y \<noteq> 0 then comparePart x y else prereleaseLoop xs ys (Suc i))"
    using lt unfolding x_def y_def by (subst prereleaseLoop_step) (simp only: if_True)
  show ?case
  proof (cases "x = y")
    case True
    have "?R i \<longleftrightarrow> ?R (Suc i)"
    proof
      assume "?R i"
      then obtain j where j: "i \<le> j"
        "\<forall>k. i \<le> k \<and> k < j \<longrightarrow>
           (if k < length xs then xs ! k else []) = (if k < length ys then ys ! k else [])"
        "comparePart (if j < length xs then xs ! j else [])
                     (if j < length ys then ys ! j else []) = -1"
        by blast
      have "j \<noteq> i"
      proof
        assume "j = i"
        with j(3) have "comparePart x y = -1" unfolding x_def y_def by auto
        with True show False by (simp add: comparePart_zero [THEN iffD2])
      qed
      with j(1) have "Suc i \<le> j" by simp
      with j(2,3) show "?R (Suc i)" by (intro exI [of _ j]) auto
    next
      assume "?R (Suc i)"
      then obtain j where j: "Suc i \<le> j"
        "\<forall>k. Suc i \<le> k \<and> k < j \<longrightarrow>
           (if k < length xs then xs ! k else []) = (if k < length ys then ys ! k else [])"
        "comparePart (if j < length xs then xs ! j else [])
                     (if j < length ys then ys ! j else []) = -1"
        by blast
      have "\<forall>k. i \<le> k \<and> k < j \<longrightarrow>
           (if k < length xs then xs ! k else []) = (if k < length ys then ys ! k else [])"
      proof (intro allI impI)
        fix k assume k: "i \<le> k \<and> k < j"
        show "(if k < length xs then xs ! k else []) = (if k < length ys then ys ! k else [])"
        proof (cases "k = i")
          case True
          with \<open>x = y\<close> show ?thesis unfolding x_def y_def by (auto split: if_splits)
        next
          case False
          with k have "Suc i \<le> k \<and> k < j" by simp
          with j(2) show ?thesis by blast
        qed
      qed
      with j(1,3) show "?R i" by (intro exI [of _ j]) auto
    qed
    with l ih True show ?thesis by (simp add: comparePart_zero [THEN iffD2])
  next
    case False
    then have nz: "comparePart x y \<noteq> 0" by (simp add: comparePart_zero)
    have "?R i \<longleftrightarrow> comparePart x y = -1"
    proof
      assume "?R i"
      then obtain j where j: "i \<le> j"
        "\<forall>k. i \<le> k \<and> k < j \<longrightarrow>
           (if k < length xs then xs ! k else []) = (if k < length ys then ys ! k else [])"
        "comparePart (if j < length xs then xs ! j else [])
                     (if j < length ys then ys ! j else []) = -1"
        by blast
      have "j = i"
      proof (rule ccontr)
        assume "j \<noteq> i"
        with j(1) have "i \<le> i \<and> i < j" by simp
        with j(2) have "x = y" unfolding x_def y_def by blast
        with False show False by simp
      qed
      with j(3) show "comparePart x y = -1" unfolding x_def y_def by auto
    next
      assume "comparePart x y = -1"
      then show "?R i" unfolding x_def y_def by (intro exI [of _ i]) auto
    qed
    with l nz show ?thesis by simp
  qed
qed

lemma prereleaseLoop_trans:
  assumes free: "\<And>k. (\<forall>j<k. (if j < length xs then xs ! j else []) = (if j < length ys then ys ! j else [])
                          \<and> (if j < length ys then ys ! j else []) = (if j < length zs then zs ! j else []))
                  \<Longrightarrow> \<not> tokensClash (if k < length xs then xs ! k else [])
                                     (if k < length ys then ys ! k else [])
                                     (if k < length zs then zs ! k else [])"
    and le: "prereleaseLoop xs ys 0 \<le> 0" "prereleaseLoop ys zs 0 \<le> 0"
  shows "prereleaseLoop xs zs 0 \<le> 0"
proof (rule ccontr)
  define T where "T = (\<lambda>us k. if k < length us then us ! k else ([] :: string))"
  have less: "prereleaseLoop us ws 0 = -1 \<longleftrightarrow>
                (\<exists>j. (\<forall>k<j. T us k = T ws k) \<and> comparePart (T us j) (T ws j) = -1)" for us ws
    using prereleaseLoop_less [of us ws 0] unfolding T_def by simp
  have nyx: "\<not> (\<exists>j. (\<forall>k<j. T ys k = T xs k) \<and> comparePart (T ys j) (T xs j) = -1)"
    using le(1) prereleaseLoop_antisym [of xs ys 0] less [of ys xs] by auto
  have nzy: "\<not> (\<exists>j. (\<forall>k<j. T zs k = T ys k) \<and> comparePart (T zs j) (T ys j) = -1)"
    using le(2) prereleaseLoop_antisym [of ys zs 0] less [of zs ys] by auto
  assume "\<not> prereleaseLoop xs zs 0 \<le> 0"
  then have "prereleaseLoop xs zs 0 = 1"
    using prereleaseLoop_range [of xs zs 0] by auto
  then have "prereleaseLoop zs xs 0 = -1"
    using prereleaseLoop_antisym [of zs xs 0] by simp
  then obtain j where j: "\<forall>k<j. T zs k = T xs k" "comparePart (T zs j) (T xs j) = -1"
    using less [of zs xs] by blast
  define P where "P = (\<lambda>k. T xs k \<noteq> T ys k \<or> T ys k \<noteq> T zs k)"
  define m where "m = (LEAST k. P k)"
  from j(2) have "T zs j \<noteq> T xs j" by (auto simp add: comparePart_zero [THEN iffD2])
  then have "P j" unfolding P_def by auto
  then have Pm: "P m" and mj: "m \<le> j"
    unfolding m_def by (auto intro: LeastI Least_le)
  have before: "T xs k = T ys k \<and> T ys k = T zs k" if "k < m" for k
    using that not_less_Least [of k P] unfolding m_def P_def by auto
  have b1: "\<forall>k<m. T ys k = T xs k" using before by metis
  have b2: "\<forall>k<m. T zs k = T ys k" using before by metis
  have "\<not> tokensClash (T xs m) (T ys m) (T zs m)"
    unfolding T_def using before by (intro free) (simp add: T_def)
  then have nc: "\<not> missingTokenClash (T xs m) (T ys m) (T zs m)"
    "\<not> missingTokenClash (T xs m) (T zs m) (T ys m)"
    "\<not> missingTokenClash (T ys m) (T xs m) (T zs m)"
    "\<not> missingTokenClash (T ys m) (T zs m) (T xs m)"
    "\<not> missingTokenClash (T zs m) (T xs m) (T ys m)"
    "\<not> missingTokenClash (T zs m) (T ys m) (T xs m)"
    by (simp_all add: tokensClash_def)
  have "comparePart (T ys m) (T xs m) \<noteq> -1" using nyx b1 by blast
  then have xy: "comparePart (T xs m) (T ys m) \<le> 0"
    using comparePart_antisym [of "T xs m" "T ys m"] comparePart_range [of "T ys m" "T xs m"]
    by auto
  have "comparePart (T zs m) (T ys m) \<noteq> -1" using nzy b2 by blast
  then have yz: "comparePart (T ys m) (T zs m) \<le> 0"
    using comparePart_antisym [of "T ys m" "T zs m"] comparePart_range [of "T zs m" "T ys m"]
    by auto
  from comparePart_trans [OF nc xy yz] have xz: "comparePart (T xs m) (T zs m) \<le> 0" .
  show False
  proof (cases "m = j")
    case True
    with j(2) comparePart_antisym [of "T xs j" "T zs j"] xz show False by simp
  next
    case False
    with mj have "m < j" by simp
    with j(1) have e: "T zs m = T xs m" by simp
    with Pm have ne: "T xs m \<noteq> T ys m" unfolding P_def by auto
    with xy have "comparePart (T xs m) (T ys m) = -1"
      using comparePart_range [of "T xs m" "T ys m"] by (auto simp add: comparePart_zero)
    moreover from ne yz e have "comparePart (T ys m) (T xs m) = -1"
      using comparePart_range [of "T ys m" "T xs m"] by (auto simp add: comparePart_zero)
    ultimately show False using comparePart_antisym [of "T xs m" "T ys m"] by simp
  qed
qed

lemma comparePrereleases_trans:
  assumes "\<And>k. (\<forall>j<k. tokenAt p j = tokenAt q j \<and> tokenAt q j = tokenAt r j)
                  \<Longrightarrow> \<not> tokensClash (tokenAt p k) (tokenAt q k) (tokenAt r k)"
    and "comparePrereleases p q \<le> 0" "comparePrereleases q r \<le> 0"
  shows "comparePrereleases p r \<le> 0"
  using assms unfolding comparePrereleases_loop tokenAt_def
  by (rule prereleaseLoop_trans)

lemma segmentLoop_zero_same_length:
  assumes nn: "\<forall>x \<in> set xs. 0 \<le> x" "\<forall>y \<in> set ys. 0 \<le> y"
    and len: "length xs = length ys" and z: "segmentLoop xs ys 0 = 0"
  shows "xs = ys"
proof (rule ccontr)
  assume ne: "xs \<noteq> ys"
  define P where "P = (\<lambda>k. k < length xs \<and> xs ! k \<noteq> ys ! k)"
  from ne len have "\<exists>k. P k" unfolding P_def by (auto simp add: list_eq_iff_nth_eq)
  then obtain k0 where "P k0" by blast
  define m where "m = (LEAST k. P k)"
  from \<open>P k0\<close> have Pm: "P m" unfolding m_def by (rule LeastI)
  have before: "\<not> P k" if "k < m" for k
    using that not_less_Least [of k P] unfolding m_def by auto
  have pre: "\<forall>k. 0 \<le> k \<and> k < m \<longrightarrow>
      (if k < length xs then xs ! k else 0) = (if k < length ys then ys ! k else 0)"
    using before Pm len unfolding P_def by auto
  have pre': "\<forall>k. 0 \<le> k \<and> k < m \<longrightarrow>
      (if k < length ys then ys ! k else 0) = (if k < length xs then xs ! k else 0)"
    using pre by simp
  from Pm len have "xs ! m < ys ! m \<or> ys ! m < xs ! m" "m < length xs" "m < length ys"
    unfolding P_def by auto
  then have "segmentLoop xs ys 0 = -1 \<or> segmentLoop ys xs 0 = -1"
    unfolding segmentLoop_less [OF nn, of 0] segmentLoop_less [OF nn(2,1), of 0]
    using pre pre' by (auto intro!: exI [of _ m])
  with z segmentLoop_antisym [of ys xs 0] show False by simp
qed

lemma Compare_parsed:
  assumes "NewVersion sa = Inr a" "NewVersion sb = Inr b"
  shows "Compare a b =
           (if segments a = segments b then
              (if pre a = [] \<and> pre b = [] then 0
               else if pre a = [] then 1
               else if pre b = [] then -1
               else comparePrereleases (pre a) (pre b))
            else segmentLoop (segments a) (segments b) 0)"
proof (cases "String a = String b")
  case True
  from NewVersion_segments_range [OF assms(1)] have
    "NewVersion (String a) = Inr \<lparr>metadata = metadata a, pre = pre a, segments = segments a,
                si = int (length (segments a))\<rparr>"
    by (intro NewVersion_String) simp_all
  moreover from NewVersion_segments_range [OF assms(2)] have
    "NewVersion (String b) = Inr \<lparr>metadata = metadata b, pre = pre b, segments = segments b,
                si = int (length (segments b))\<rparr>"
    by (intro NewVersion_String) simp_all
  ultimately have "segments a = segments b" "pre a = pre b" using True by simp_all
  with True show ?thesis by (simp add: Compare_def comparePrereleases_same)
next
  case False
  then show ?thesis
    by (simp add: Compare_def Segments_def Prerelease_def Let_def)
qed

lemma tokensClash_rev: "tokensClash z y x = tokensClash x y z"
  by (auto simp add: tokensClash_def)

lemma Compare_trans_parsed:
  assumes p: "NewVersion sa = Inr a" "NewVersion sb = Inr b" "NewVersion sc = Inr c"
    and hab: "pre a = pre b \<or> length (segments a) = length (segments b) \<or> Compare a b \<noteq> 0"
    and hbc: "pre b = pre c \<or> length (segments b) = length (segments c) \<or> Compare b c \<noteq> 0"
    and hac: "pre a = pre c \<or> length (segments a) = length (segments c) \<or> Compare a c \<noteq> 0"
    and tok: "segments a = segments b \<and> segments b = segments c
              \<and> pre a \<noteq> [] \<and> pre b \<noteq> [] \<and> pre c \<noteq> [] \<longrightarrow>
              (\<forall>k. (\<forall>j<k. tokenAt (pre a) j = tokenAt (pre b) j
                           \<and> tokenAt (pre b) j = tokenAt (pre c) j) \<longrightarrow>
                    \<not> tokensClash (tokenAt (pre a) k) (tokenAt (pre b) k) (tokenAt (pre c) k))"
    and le: "Compare a b \<le> 0" "Compare b c \<le> 0"
  shows "Compare a c \<le> 0"
proof -
  have nn: "\<forall>x \<in> set (segments a). 0 \<le> x" "\<forall>x \<in> set (segments b). 0 \<le> x"
    "\<forall>x \<in> set (segments c). 0 \<le> x"
    using NewVersion_segments_range [OF p(1)] NewVersion_segments_range [OF p(2)]
      NewVersion_segments_range [OF p(3)] by auto
  note cab = Compare_parsed [OF p(1,2)]
  note cbc = Compare_parsed [OF p(2,3)]
  note cac = Compare_parsed [OF p(1,3)]
  have sab: "segmentLoop (segments a) (segments b) 0 \<le> 0"
    using le(1) unfolding cab by (simp add: segmentLoop_refl split: if_splits)
  have sbc: "segmentLoop (segments b) (segments c) 0 \<le> 0"
    using le(2) unfolding cbc by (simp add: segmentLoop_refl split: if_splits)
  from segmentLoop_trans [OF nn sab sbc]
  have sac: "segmentLoop (segments a) (segments c) 0 \<le> 0" .
  show ?thesis
  proof (cases "segments a = segments c")
    case False
    with sac show ?thesis unfolding cac by simp
  next
    case ac: True
    from sbc ac have "segmentLoop (segments b) (segments a) 0 \<le> 0" by simp
    with sab have zab: "segmentLoop (segments a) (segments b) 0 = 0"
      using segmentLoop_antisym [of "segments a" "segments b" 0] by simp
    show ?thesis
    proof (cases "segments a = segments b")
      case ab: False
      from ab zab segmentLoop_zero_same_length [OF nn(1,2)]
      have l1: "length (segments a) \<noteq> length (segments b)" by blast
      from ab zab have "Compare a b = 0" unfolding cab by simp
      with hab l1 have e1: "pre a = pre b" by simp
      from ab ac have bc: "segments b \<noteq> segments c" by simp
      from zab ac have zbc: "segmentLoop (segments b) (segments c) 0 = 0"
        using segmentLoop_antisym [of "segments b" "segments a" 0] by simp
      from bc zbc segmentLoop_zero_same_length [OF nn(2,3)]
      have l2: "length (segments b) \<noteq> length (segments c)" by blast
      from bc zbc have "Compare b c = 0" unfolding cbc by simp
      with hbc l2 have e2: "pre b = pre c" by simp
      from e1 e2 ac show ?thesis unfolding cac by (simp add: comparePrereleases_same)
    next
      case ab: True
      with ac have bc: "segments b = segments c" by simp
      show ?thesis
      proof (cases "pre a = [] \<or> pre b = [] \<or> pre c = []")
        case True
        with le ab bc ac show ?thesis unfolding cab cbc cac
          by (auto split: if_splits)
      next
        case False
        then have ne: "pre a \<noteq> []" "pre b \<noteq> []" "pre c \<noteq> []" by simp_all
        from tok ab bc ne have free:
          "\<And>k. (\<forall>j<k. tokenAt (pre a) j = tokenAt (pre b) j
                         \<and> tokenAt (pre b) j = tokenAt (pre c) j)
                \<Longrightarrow> \<not> tokensClash (tokenAt (pre a) k) (tokenAt (pre b) k) (tokenAt (pre c) k)"
          by blast
        from le ab bc ne have "comparePrereleases (pre a) (pre b) \<le> 0"
          "comparePrereleases (pre b) (pre c) \<le> 0"
          unfolding cab cbc by simp_all
        from comparePrereleases_trans [OF free this]
        show ?thesis using ac ne unfolding cac by simp
      qed
    qed
  qed
qed

text \<open>An instance: segment lists of one length and prereleases without a dot.\<close>

lemma Compare_trans_dot_free:
  assumes p: "NewVersion sa = Inr a" "NewVersion sb = Inr b" "NewVersion sc = Inr c"
    and len: "length (segments a) = length (segments b)" "length (segments b) = length (segments c)"
    and dot: "CHR ''.'' \<notin> set (pre a)" "CHR ''.'' \<notin> set (pre b)" "CHR ''.'' \<notin> set (pre c)"
    and le: "Compare a b \<le> 0" "Compare b c \<le> 0"
  shows "Compare a c \<le> 0"
proof -
  have t: "tokenAt q k = (if k = 0 then q else [])" if "CHR ''.'' \<notin> set q" for q k
    using Split_no_dot [OF that] by (simp add: tokenAt_def)
  have "\<not> tokensClash (tokenAt (pre a) k) (tokenAt (pre b) k) (tokenAt (pre c) k)"
    if "pre a \<noteq> []" "pre b \<noteq> []" "pre c \<noteq> []" for k
    using that unfolding t [OF dot(1)] t [OF dot(2)] t [OF dot(3)]
    by (simp add: tokensClash_def missingTokenClash_def ParseInt_Nil)
  then show ?thesis
    using len le by (intro Compare_trans_parsed [OF p]) auto
qed

text \<open>
  Claim C1 asks for a strict total order. Transitivity fails on the prerelease rules
  alone: \<^verbatim>\<open>1.0.0-alpha.beta\<close> is less than \<^verbatim>\<open>1.0.0-alpha\<close> (a missing token is
  greater than a non-numeric one), \<^verbatim>\<open>1.0.0-alpha\<close> is less than
  \<^verbatim>\<open>1.0.0-alpha.1\<close> (a missing token is less than a numeric one), and yet
  \<^verbatim>\<open>1.0.0-alpha.beta\<close> is greater than \<^verbatim>\<open>1.0.0-alpha.1\<close> (as strings).
\<close>

theorem Compare_transitive_counterexample:
  "NewVersion ''1.0.0-alpha.beta''
     = Inr \<lparr>metadata = [], pre = ''alpha.beta'', segments = [1, 0, 0], si = 3\<rparr>
   \<and> NewVersion ''1.0.0-alpha''
     = Inr \<lparr>metadata = [], pre = ''alpha'', segments = [1, 0, 0], si = 3\<rparr>
   \<and> NewVersion ''1.0.0-alpha.1''
     = Inr \<lparr>metadata = [], pre = ''alpha.1'', segments = [1, 0, 0], si = 3\<rparr>
   \<and> Compare \<lparr>metadata = [], pre = ''alpha.beta'', segments = [1, 0, 0], si = 3\<rparr>
             \<lparr>metadata = [], pre = ''alpha'', segments = [1, 0, 0], si = 3\<rparr> = -1
   \<and> Compare \<lparr>metadata = [], pre = ''alpha'', segments = [1, 0, 0], si = 3\<rparr>
             \<lparr>metadata = [], pre = ''alpha.1'', segments = [1, 0, 0], si = 3\<rparr> = -1
   \<and> Compare \<lparr>metadata = [], pre = ''alpha.beta'', segments = [1, 0, 0], si = 3\<rparr>
             \<lparr>metadata = [], pre = ''alpha.1'', segments = [1, 0, 0], si = 3\<rparr> = 1"
  by code_simp

text \<open>
  Claim C1, amended. For every pair of Versions \<open>Compare a b = - Compare b a\<close>, the
  result is -1, 0 or 1, and exactly one of LessThan, Equal, GreaterThan holds. Compare is
  transitive on every three parsed Versions, two cases apart. The first is the one of the
  counterexample: the three have the same segments and non-empty prereleases, and at the
  first position where their token lists are not all equal one list has run out while the
  other two carry a numeric token and a non-numeric token that sorts after it. The second
  is left open: two of the three compare as 0 although they differ in prerelease and in
  the number of segments.
\<close>

theorem Compare_antisymmetric_total:
  "Compare a b = - Compare b a
   \<and> Compare a b \<in> {-1, 0, 1}
   \<and> (LessThan a b \<longleftrightarrow> GreaterThan b a)
   \<and> (Equal a b \<longleftrightarrow> Equal b a)
   \<and> ((LessThan a b \<and> \<not> Equal a b \<and> \<not> GreaterThan a b)
      \<or> (\<not> LessThan a b \<and> Equal a b \<and> \<not> GreaterThan a b)
      \<or> (\<not> LessThan a b \<and> \<not> Equal a b \<and> GreaterThan a b))
   \<and> (NewVersion sa = Inr a \<and> NewVersion sb = Inr b \<and> NewVersion sc = Inr c
       \<and> (pre a = pre b \<or> length (segments a) = length (segments b) \<or> Compare a b \<noteq> 0)
       \<and> (pre b = pre c \<or> length (segments b) = length (segments c) \<or> Compare b c \<noteq> 0)
       \<and> (pre a = pre c \<or> length (segments a) = length (segments c) \<or> Compare a c \<noteq> 0)
       \<and> (segments a = segments b \<and> segments b = segments c
           \<and> pre a \<noteq> [] \<and> pre b \<noteq> [] \<and> pre c \<noteq> [] \<longrightarrow>
           (\<forall>k. (\<forall>j<k. tokenAt (pre a) j = tokenAt (pre b) j
                        \<and> tokenAt (pre b) j = tokenAt (pre c) j) \<longrightarrow>
                 \<not> tokensClash (tokenAt (pre a) k) (tokenAt (pre b) k) (tokenAt (pre c) k)))
       \<longrightarrow>
         (Compare a b \<le> 0 \<and> Compare b c \<le> 0 \<longrightarrow> Compare a c \<le> 0)
       \<and> (Compare a b = 0 \<and> Compare b c = 0 \<longrightarrow> Compare a c = 0))"
proof -
  have order: "Compare a b = - Compare b a
   \<and> Compare a b \<in> {-1, 0, 1}
   \<and> (LessThan a b \<longleftrightarrow> GreaterThan b a)
   \<and> (Equal a b \<longleftrightarrow> Equal b a)
   \<and> ((LessThan a b \<and> \<not> Equal a b \<and> \<not> GreaterThan a b)
      \<or> (\<not> LessThan a b \<and> Equal a b \<and> \<not> GreaterThan a b)
      \<or> (\<not> LessThan a b \<and> \<not> Equal a b \<and> GreaterThan a b))"
    using Compare_antisym [of a b] Compare_range [of a b]
    by (auto simp add: LessThan_def Equal_def GreaterThan_def)
  have trans: "(Compare a b \<le> 0 \<and> Compare b c \<le> 0 \<longrightarrow> Compare a c \<le> 0)
       \<and> (Compare a b = 0 \<and> Compare b c = 0 \<longrightarrow> Compare a c = 0)"
    if p: "NewVersion sa = Inr a" "NewVersion sb = Inr b" "NewVersion sc = Inr c"
      and hab: "pre a = pre b \<or> length (segments a) = length (segments b) \<or> Compare a b \<noteq> 0"
      and hbc: "pre b = pre c \<or> length (segments b) = length (segments c) \<or> Compare b c \<noteq> 0"
      and hac: "pre a = pre c \<or> length (segments a) = length (segments c) \<or> Compare a c \<noteq> 0"
      and tok: "segments a = segments b \<and> segments b = segments c
              \<and> pre a \<noteq> [] \<and> pre b \<noteq> [] \<and> pre c \<noteq> [] \<longrightarrow>
              (\<forall>k. (\<forall>j<k. tokenAt (pre a) j = tokenAt (pre b) j
                           \<and> tokenAt (pre b) j = tokenAt (pre c) j) \<longrightarrow>
                    \<not> tokensClash (tokenAt (pre a) k) (tokenAt (pre b) k) (tokenAt (pre c) k))"
  proof -
    have hcb: "pre c = pre b \<or> length (segments c) = length (segments b) \<or> Compare c b \<noteq> 0"
      using hbc Compare_antisym [of c b] by auto
    have hba: "pre b = pre a \<or> length (segments b) = length (segments a) \<or> Compare b a \<noteq> 0"
      using hab Compare_antisym [of b a] by auto
    have hca: "pre c = pre a \<or> length (segments c) = length (segments a) \<or> Compare c a \<noteq> 0"
      using hac Compare_antisym [of c a] by auto
    have tok': "segments c = segments b \<and> segments b = segments a
              \<and> pre c \<noteq> [] \<and> pre b \<noteq> [] \<and> pre a \<noteq> [] \<longrightarrow>
              (\<forall>k. (\<forall>j<k. tokenAt (pre c) j = tokenAt (pre b) j
                           \<and> tokenAt (pre b) j = tokenAt (pre a) j) \<longrightarrow>
                    \<not> tokensClash (tokenAt (pre c) k) (tokenAt (pre b) k) (tokenAt (pre a) k))"
    proof (intro impI allI)
      fix k
      assume h: "segments c = segments b \<and> segments b = segments a
              \<and> pre c \<noteq> [] \<and> pre b \<noteq> [] \<and> pre a \<noteq> []"
        and e: "\<forall>j<k. tokenAt (pre c) j = tokenAt (pre b) j
                           \<and> tokenAt (pre b) j = tokenAt (pre a) j"
      from h have "segments a = segments b \<and> segments b = segments c
              \<and> pre a \<noteq> [] \<and> pre b \<noteq> [] \<and> pre c \<noteq> []" by simp
      moreover from e have "\<forall>j<k. tokenAt (pre a) j = tokenAt (pre b) j
                           \<and> tokenAt (pre b) j = tokenAt (pre c) j" by simp
      ultimately have "\<not> tokensClash (tokenAt (pre a) k) (tokenAt (pre b) k) (tokenAt (pre c) k)"
        using tok by blast
      then show "\<not> tokensClash (tokenAt (pre c) k) (tokenAt (pre b) k) (tokenAt (pre a) k)"
        by (simp add: tokensClash_rev)
    qed
    show ?thesis
    proof (intro conjI impI)
      assume "Compare a b \<le> 0 \<and> Compare b c \<le> 0"
      then show "Compare a c \<le> 0"
        using Compare_trans_parsed [OF p hab hbc hac tok] by simp
    next
      assume z: "Compare a b = 0 \<and> Compare b c = 0"
      then have "Compare a c \<le> 0"
        using Compare_trans_parsed [OF p hab hbc hac tok] by simp
      moreover from z have "Compare c b \<le> 0" "Compare b a \<le> 0"
        using Compare_antisym [of c b] Compare_antisym [of b a] by simp_all
      then have "Compare c a \<le> 0"
        using Compare_trans_parsed [OF p(3,2,1) hcb hba hca tok'] by simp
      ultimately show "Compare a c = 0"
        using Compare_antisym [of a c] by simp
    qed
  qed
  from order trans show ?thesis by blast
qed

theorem Compare_antisymmetric_total_witness:
  "NewVersion ''1.0.0-alpha''
     = Inr \<lparr>metadata = [], pre = ''alpha'', segments = [1, 0, 0], si = 3\<rparr>
   \<and> NewVersion ''v1.0-beta+x''
       = Inr \<lparr>metadata = ''x'', pre = ''beta'', segments = [1, 0, 0], si = 2\<rparr>
   \<and> NewVersion ''1.0.0-rc.1''
       = Inr \<lparr>metadata = [], pre = ''rc.1'', segments = [1, 0, 0], si = 3\<rparr>
   \<and> Compare \<lparr>metadata = [], pre = ''alpha'', segments = [1, 0, 0], si = 3\<rparr>
             \<lparr>metadata = ''x'', pre = ''beta'', segments = [1, 0, 0], si = 2\<rparr> = -1
   \<and> Compare \<lparr>metadata = ''x'', pre = ''beta'', segments = [1, 0, 0], si = 2\<rparr>
             \<lparr>metadata = [], pre = ''rc.1'', segments = [1, 0, 0], si = 3\<rparr> = -1
   \<and> Compare \<lparr>metadata = [], pre = ''alpha'', segments = [1, 0, 0], si = 3\<rparr>
             \<lparr>metadata = [], pre = ''rc.1'', segments = [1, 0, 0], si = 3\<rparr> \<le> 0
   \<and> Compare \<lparr>metadata = [], pre = ''alpha'', segments = [1, 0, 0], si = 3\<rparr>
             \<lparr>metadata = ''x'', pre = ''beta'', segments = [1, 0, 0], si = 2\<rparr>
       = - Compare \<lparr>metadata = ''x'', pre = ''beta'', segments = [1, 0, 0], si = 2\<rparr>
                   \<lparr>metadata = [], pre = ''alpha'', segments = [1, 0, 0], si = 3\<rparr>"
proof -
  have p: "NewVersion ''1.0.0-alpha''
     = Inr \<lparr>metadata = [], pre = ''alpha'', segments = [1, 0, 0], si = 3\<rparr>"
    "NewVersion ''v1.0-beta+x''
       = Inr \<lparr>metadata = ''x'', pre = ''beta'', segments = [1, 0, 0], si = 2\<rparr>"
    "NewVersion ''1.0.0-rc.1''
       = Inr \<lparr>metadata = [], pre = ''rc.1'', segments = [1, 0, 0], si = 3\<rparr>"
    by code_simp+
  have c: "Compare \<lparr>metadata = [], pre = ''alpha'', segments = [1, 0, 0], si = 3\<rparr>
             \<lparr>metadata = ''x'', pre = ''beta'', segments = [1, 0, 0], si = 2\<rparr> = -1"
    "Compare \<lparr>metadata = ''x'', pre = ''beta'', segments = [1, 0, 0], si = 2\<rparr>
             \<lparr>metadata = [], pre = ''rc.1'', segments = [1, 0, 0], si = 3\<rparr> = -1"
    by code_simp+
  have t: "\<forall>k. (\<forall>j<k. tokenAt ''alpha'' j = tokenAt ''beta'' j
                        \<and> tokenAt ''beta'' j = tokenAt ''rc.1'' j) \<longrightarrow>
                 \<not> tokensClash (tokenAt ''alpha'' k) (tokenAt ''beta'' k) (tokenAt ''rc.1'' k)"
  proof (intro allI impI)
    fix k
    assume e: "\<forall>j<k. tokenAt ''alpha'' j = tokenAt ''beta'' j
                        \<and> tokenAt ''beta'' j = tokenAt ''rc.1'' j"
    have "k = 0"
    proof (rule ccontr)
      assume "k \<noteq> 0"
      with e have "tokenAt ''alpha'' 0 = tokenAt ''beta'' 0" by simp
      then show False by (simp add: tokenAt_def)
    qed
    then show "\<not> tokensClash (tokenAt ''alpha'' k) (tokenAt ''beta'' k) (tokenAt ''rc.1'' k)"
      by (simp add: tokenAt_def tokensClash_def missingTokenClash_def)
  qed
  show ?thesis
    using p c t
      Compare_antisymmetric_total
        [of "\<lparr>metadata = [], pre = ''alpha'', segments = [1, 0, 0], si = 3\<rparr>"
            "\<lparr>metadata = ''x'', pre = ''beta'', segments = [1, 0, 0], si = 2\<rparr>"
            "''1.0.0-alpha''" "''v1.0-beta+x''" "''1.0.0-rc.1''"
            "\<lparr>metadata = [], pre = ''rc.1'', segments = [1, 0, 0], si = 3\<rparr>"]
    by simp
qed

end
